theory Spec2Isabelle
  imports Main "HOL-Library.Word" "HOL-Library.AList" "HOL-Library.Multiset"
begin

section \<open>Data model (the structs \<open>Connection\<close> and \<open>Metadata\<close>)\<close>

text \<open>
  The structs are declared in \<^verbatim>\<open>src/backend/frontend_dev.go\<close> (the part that starts
  with the data models). Only the fields the pipeline reads are kept. Strings are byte
  lists, as Go strings are. The counters are Go \<open>uint64\<close>, so \<open>+\<close> on them wraps
  at \<open>2^64\<close>. \<open>Start\<close> is the \<open>time.Time\<close> of the connection, kept as what
  \<open>Start.Unix()\<close> returns (whole seconds): the code reads it in no other way.
\<close>

record Metadata =
  SourceIP :: string
  Host :: string
  RemoteDestination :: string

record Connection =
  ID :: string
  Metadata :: Metadata
  Upload :: "64 word"
  Download :: "64 word"
  Start :: int
  Chains :: "string list"

section \<open>Snapshot normalisation (\<open>GetClashConnections\<close>)\<close>

text \<open>
  \<^verbatim>\<open>src/backend/collector.go\<close>, lines 23 to 86; the cleaning loop is lines 62 to 82.
\<close>

text \<open>Go's \<open>strings.HasSuffix(s, suffix)\<close>.\<close>

definition HasSuffix :: "string \<Rightarrow> string \<Rightarrow> bool" where
  "HasSuffix s suffix \<longleftrightarrow>
     length suffix \<le> length s \<and> drop (length s - length suffix) s = suffix"

text \<open>
  The inner loop over \<open>hostSuffixWhitelist\<close>: the first suffix the host ends with
  replaces the host, and the loop breaks.
\<close>

fun applyWhitelist :: "string list \<Rightarrow> string \<Rightarrow> string" where
  "applyWhitelist [] host = host"
| "applyWhitelist (suffix # rest) host =
     (if HasSuffix host suffix then suffix else applyWhitelist rest host)"

text \<open>
  The body of the outer loop, for one connection: an empty host is filled from
  \<open>remoteDestination\<close> (lines 69 to 71), then the allow-list is applied.
\<close>

definition fillHost :: "Connection \<Rightarrow> Connection" where
  "fillHost conn =
     (if Host (Metadata conn) = []
      then conn\<lparr>Metadata := (Metadata conn)\<lparr>Host := RemoteDestination (Metadata conn)\<rparr>\<rparr>
      else conn)"

definition normalizeConn :: "string list \<Rightarrow> Connection \<Rightarrow> Connection" where
  "normalizeConn hostSuffixWhitelist conn =
     (let conn1 = fillHost conn
      in conn1\<lparr>Metadata := (Metadata conn1)
            \<lparr>Host := applyWhitelist hostSuffixWhitelist (Host (Metadata conn1))\<rparr>\<rparr>)"

text \<open>
  What the HTTP exchange with the Clash API produced: one of the failures the function
  returns an error for (request, status other than 200, reading the body, decoding the
  JSON), or the decoded list of connections. The errors of the whole program are one
  datatype; a failed fetch is \<open>FetchError\<close>.
\<close>

datatype response =
    RequestFailed
  | BadStatus
  | ReadFailed
  | BadJSON
  | Decoded "Connection list"

datatype error =
    FetchError
  | BeginError
  | PrepareError
  | ExecError string
  | CommitError
  | QueryError
  | ArchiveBeginError
  | ArchiveError
  | DeleteError
  | InsertError

fun GetClashConnections :: "response \<Rightarrow> string list \<Rightarrow> error + Connection list" where
  "GetClashConnections (Decoded connections) hostSuffixWhitelist =
     Inr (map (normalizeConn hostSuffixWhitelist) connections)"
| "GetClashConnections _ hostSuffixWhitelist = Inl FetchError"

text \<open>
  The normaliser as the specification words it: the host after the fallback fill, and
  the first suffix of the allow-list that this host ends with.
\<close>

definition filledHost :: "Connection \<Rightarrow> string" where
  "filledHost conn =
     (if Host (Metadata conn) = [] then RemoteDestination (Metadata conn)
      else Host (Metadata conn))"

definition firstMatch :: "string list \<Rightarrow> string \<Rightarrow> string option" where
  "firstMatch allowList h = find (\<lambda>suffix. \<exists>pre. h = pre @ suffix) allowList"

section \<open>The primary store and the archive store\<close>

text \<open>
  The table \<open>connections\<close> (created by \<open>InitDB\<close>,
  \<^verbatim>\<open>src/unnamed/part_001\<close> lines 36 to 44) is a list of rows in insertion order, the
  order in which a scan of the table returns them; \<open>id\<close> is its primary key. The
  columns hold what the program writes into them: text for \<open>id\<close>, \<open>sourceIP\<close>
  and \<open>host\<close>, the two counters, the start time in Unix seconds, and a \<open>chain\<close>
  that the merge reads as a nullable string. On such rows \<open>rows.Scan\<close> does not fail.
  The table \<open>connections_archive\<close> has the same columns and \<open>archived_at\<close>, and
  no key.
\<close>

record Row =
  id_col :: string
  sourceIP :: string
  host :: string
  upload :: "64 word"
  download :: "64 word"
  start :: int
  chain_col :: "string option"

type_synonym ArchiveRow = "Row \<times> int"

text \<open>
  Every call into \<open>database/sql\<close> can return an error for reasons outside the
  program (a locked or full database, a value the driver refuses). The model takes the
  outcome of these calls as a parameter \<open>fails\<close>: one case per call site, the
  statements executed in a loop told apart by the id they are executed for.
\<close>

datatype call =
    Begin
  | PrepareUpsert
  | ExecUpsert string
  | Commit
  | Query
  | ArchiveBegin
  | PrepareArchive
  | PrepareDelete
  | ExecArchive string
  | ExecDelete string
  | PrepareInsert
  | ExecInsert string
  | ArchiveCommit
  | ExecUpdate

text \<open>
  The statement of \<open>BulkUpsertConnections\<close> (lines 89 to 95):
  \<^verbatim>\<open>INSERT INTO connections (...) VALUES (...) ON CONFLICT(id) DO UPDATE SET
  upload = excluded.upload, download = excluded.download\<close>.
\<close>

definition upsert :: "Row \<Rightarrow> Row list \<Rightarrow> Row list" where
  "upsert excluded tx =
     (if id_col excluded \<in> id_col ` set tx
      then map (\<lambda>r. if id_col r = id_col excluded
                    then r\<lparr>upload := upload excluded, download := download excluded\<rparr>
                    else r) tx
      else tx @ [excluded])"

text \<open>
  The arguments of \<open>stmt.Exec\<close> (lines 110 to 116): the chain column is the last
  hop of the proxy chain, or the empty string.
\<close>

definition lastChain :: "string list \<Rightarrow> string" where
  "lastChain hops = (if hops \<noteq> [] then last hops else [])"

definition upsertArgs :: "Connection \<Rightarrow> Row" where
  "upsertArgs conn =
     \<lparr>id_col = ID conn, sourceIP = SourceIP (Metadata conn), host = Host (Metadata conn),
      upload = Upload conn, download = Download conn, start = Start conn,
      chain_col = Some (lastChain (Chains conn))\<rparr>"

text \<open>
  The loop (lines 104 to 121): a record with an empty host is skipped; the first
  statement that fails ends the function with an error.
\<close>

fun upsertLoop :: "(call \<Rightarrow> bool) \<Rightarrow> Connection list \<Rightarrow> Row list \<Rightarrow> error + Row list" where
  "upsertLoop fails [] tx = Inr tx"
| "upsertLoop fails (conn # rest) tx =
     (if Host (Metadata conn) = [] then upsertLoop fails rest tx
      else if fails (ExecUpsert (ID conn)) then Inl (ExecError (ID conn))
      else upsertLoop fails rest (upsert (upsertArgs conn) tx))"

text \<open>
  \<open>BulkUpsertConnections\<close> (lines 67 to 124) returns its error, if any, and leaves
  the store as the transaction left it: unchanged after a rollback, updated after the
  commit that the deferred function performs when no error occurred.
\<close>

definition BulkUpsertConnections ::
  "(call \<Rightarrow> bool) \<Rightarrow> Row list \<Rightarrow> Connection list \<Rightarrow> error option \<times> Row list" where
  "BulkUpsertConnections fails db connections =
     (if fails Begin then (Some BeginError, db)
      else if fails PrepareUpsert then (Some PrepareError, db)
      else case upsertLoop fails connections db of
             Inl err \<Rightarrow> (Some err, db)
           | Inr tx \<Rightarrow> if fails Commit then (Some CommitError, db) else (None, tx))"

section \<open>The live cache, the poller and the flusher\<close>

text \<open>
  \<^verbatim>\<open>src/backend/frontend_dev.go\<close>: \<open>connectionsCache\<close> (line 152), the poller
  goroutine (lines 226 to 240) and \<open>writeCacheToDB\<close> (lines 280 to 305).

  The cache is a \<open>sync.Map\<close> from connection id to \<open>Connection\<close>, modelled as an
  association list with one entry per key. \<open>Range\<close> visits the entries in an order
  the library does not specify: the model takes that order as a parameter
  \<open>rangeOrder\<close>, a function that rearranges the entries, and \<open>visitsAll\<close> says
  that it visits every entry once.
\<close>

type_synonym cache = "(string \<times> Connection) list"

definition Store :: "string \<Rightarrow> Connection \<Rightarrow> cache \<Rightarrow> cache" where
  "Store key v m = AList.update key v m"

definition Delete :: "string \<Rightarrow> cache \<Rightarrow> cache" where
  "Delete key m = AList.delete key m"

definition visitsAll :: "(cache \<Rightarrow> cache) \<Rightarrow> bool" where
  "visitsAll rangeOrder \<longleftrightarrow> (\<forall>m. mset (rangeOrder m) = mset m)"

text \<open>The lines the poller and the flusher log.\<close>

datatype logline =
    LogFetchFailed
  | LogSynced nat
  | LogCacheEmpty
  | LogWriting nat
  | LogWriteFailed error
  | LogWriteOK

text \<open>One tick of the poller: fetch, and store every record under its id.\<close>

definition storeAll :: "Connection list \<Rightarrow> cache \<Rightarrow> cache" where
  "storeAll connections m = fold (\<lambda>conn. Store (ID conn) conn) connections m"

definition pollOnce :: "response \<Rightarrow> string list \<Rightarrow> cache \<Rightarrow> cache \<times> logline" where
  "pollOnce resp hostSuffixWhitelist m =
     (case GetClashConnections resp hostSuffixWhitelist of
        Inl err \<Rightarrow> (m, LogFetchFailed)
      | Inr connections \<Rightarrow> (storeAll connections m, LogSynced (length connections)))"

text \<open>The second \<open>Range\<close> of \<open>writeCacheToDB\<close>, which deletes every key it visits.\<close>

definition clearCache :: "(cache \<Rightarrow> cache) \<Rightarrow> cache \<Rightarrow> cache" where
  "clearCache rangeOrder m = fold (\<lambda>(key, v). Delete key) (rangeOrder m) m"

text \<open>
  \<open>writeCacheToDB\<close> collects the cached records with a first \<open>Range\<close>, returns
  when there are none, writes them with \<open>BulkUpsertConnections\<close>, and only when that
  succeeded clears the cache with a second \<open>Range\<close>. The poller runs in another
  goroutine: \<open>polled\<close> are the records it stores after the first \<open>Range\<close> has
  returned and before the second one starts. With no such record the function is the
  sequential \<open>writeCacheToDB\<close>.
\<close>

definition writeCacheToDB_interleaved ::
  "(call \<Rightarrow> bool) \<Rightarrow> (cache \<Rightarrow> cache) \<Rightarrow> Connection list \<Rightarrow> cache \<Rightarrow> Row list
     \<Rightarrow> cache \<times> Row list \<times> logline list" where
  "writeCacheToDB_interleaved fails rangeOrder polled m db =
     (let connsToSave = map snd (rangeOrder m);
          m1 = storeAll polled m
      in if connsToSave = [] then (m1, db, [LogCacheEmpty])
         else case BulkUpsertConnections fails db connsToSave of
                (Some err, db') \<Rightarrow>
                  (m1, db', [LogWriting (length connsToSave), LogWriteFailed err])
              | (None, db') \<Rightarrow>
                  (clearCache rangeOrder m1, db', [LogWriting (length connsToSave), LogWriteOK]))"

definition writeCacheToDB ::
  "(call \<Rightarrow> bool) \<Rightarrow> (cache \<Rightarrow> cache) \<Rightarrow> cache \<Rightarrow> Row list
     \<Rightarrow> cache \<times> Row list \<times> logline list" where
  "writeCacheToDB fails rangeOrder m db = writeCacheToDB_interleaved fails rangeOrder [] m db"

text \<open>
  What holds of every cache the poller builds: one entry per key, and each record stored
  under its own id.
\<close>

definition cacheInv :: "cache \<Rightarrow> bool" where
  "cacheInv m \<longleftrightarrow> distinct (map fst m) \<and> list_all (\<lambda>(key, v). ID v = key) m"

section \<open>The merge and archive engine (\<open>mergeAndArchiveConnections\<close>)\<close>

text \<open>
  \<^verbatim>\<open>src/backend/handlers.go\<close>, lines 80 to 211. First the three SQL statements on the
  primary store: the range query (line 82), the delete by id (line 168), and the row a
  scan of the query result produces (lines 91 to 109).
\<close>

definition selectRange :: "int \<Rightarrow> int \<Rightarrow> Row list \<Rightarrow> Row list" where
  "selectRange startDate endDate db = filter (\<lambda>r. startDate \<le> start r \<and> start r \<le> endDate) db"

definition deleteById :: "string \<Rightarrow> Row list \<Rightarrow> Row list" where
  "deleteById i tx = filter (\<lambda>r. id_col r \<noteq> i) tx"

definition scanRow :: "Row \<Rightarrow> Connection" where
  "scanRow r =
     \<lparr>ID = id_col r,
      Metadata = \<lparr>SourceIP = sourceIP r, Host = host r, RemoteDestination = []\<rparr>,
      Upload = upload r, Download = download r, Start = start r,
      Chains = (case chain_col r of Some c \<Rightarrow> [c] | None \<Rightarrow> [])\<rparr>"

text \<open>
  \<open>time.Duration(interval) * time.Minute\<close>: a count of nanoseconds in an \<open>int64\<close>,
  so the product wraps. \<open>t.Truncate(d)\<close> rounds \<open>t\<close> down to a multiple of
  \<open>d\<close> since Go's zero time, which lies 62135596800 seconds before the Unix epoch,
  and returns \<open>t\<close> when \<open>d \<le> 0\<close>; the result is given as the Unix second that
  \<open>Format\<close> prints.
\<close>

definition minutes :: "int \<Rightarrow> int" where
  "minutes interval = sint (word_of_int interval * 60000000000 :: 64 word)"

definition Truncate :: "int \<Rightarrow> int \<Rightarrow> int" where
  "Truncate t d =
     (if d \<le> 0 then t
      else (t * 1000000000 - ((t + 62135596800) * 1000000000) mod d) div 1000000000)"

text \<open>
  The group key (lines 122 and 123) is the string \<open>host-timeSlot\<close>, where the time
  slot is the truncated start time printed by \<open>time.Format\<close> with the layout
  \<open>2006-01-02 15:04:05\<close> in the zone of the process. \<open>Format\<close> is a parameter of
  the model: the function from the Unix second of an instant to its printed form.
\<close>

definition groupKey :: "(int \<Rightarrow> string) \<Rightarrow> int \<Rightarrow> Connection \<Rightarrow> string" where
  "groupKey Format interval conn =
     Host (Metadata conn) @ ''-'' @ Format (Truncate (Start conn) (minutes interval))"

text \<open>
  The body of the grouping loop (lines 120 to 134), on the Go map \<open>mergedConnections\<close>
  as an association list: a key seen before has the counters of the record added to its
  entry, a new key gets the record itself as its entry.
\<close>

definition mergeOne ::
  "(int \<Rightarrow> string) \<Rightarrow> int \<Rightarrow> Connection \<Rightarrow> (string \<times> Connection) list
     \<Rightarrow> (string \<times> Connection) list" where
  "mergeOne Format interval conn mergedConnections =
     (case map_of mergedConnections (groupKey Format interval conn) of
        Some existing \<Rightarrow>
          AList.update (groupKey Format interval conn)
            (existing\<lparr>Upload := Upload existing + Upload conn,
                      Download := Download existing + Download conn\<rparr>)
            mergedConnections
      | None \<Rightarrow> AList.update (groupKey Format interval conn) conn mergedConnections)"

text \<open>
  The arguments of the archive insert (lines 177 to 181) and of the insert of a merged
  record (lines 199 to 204).
\<close>

definition firstChain :: "string list \<Rightarrow> string" where
  "firstChain hops = (case hops of [] \<Rightarrow> [] | c # _ \<Rightarrow> c)"

definition archiveArgs :: "Connection \<Rightarrow> int \<Rightarrow> ArchiveRow" where
  "archiveArgs conn now =
     (\<lparr>id_col = ID conn, sourceIP = SourceIP (Metadata conn), host = Host (Metadata conn),
       upload = Upload conn, download = Download conn, start = Start conn,
       chain_col = Some (firstChain (Chains conn))\<rparr>, now)"

definition insertArgs :: "string \<Rightarrow> Connection \<Rightarrow> Row" where
  "insertArgs newID conn =
     \<lparr>id_col = newID, sourceIP = SourceIP (Metadata conn), host = Host (Metadata conn),
      upload = Upload conn, download = Download conn, start = Start conn,
      chain_col = Some (firstChain (Chains conn))\<rparr>"

text \<open>
  The loop that archives and deletes every selected record (lines 176 to 189), and the
  loop that inserts the merged records (lines 198 to 208). The fresh ids come from
  \<open>uuid.New()\<close>, a parameter of the model: \<open>uuid n\<close> is the id the \<open>n\<close>-th call
  returns. An insert whose id is already in the table violates the primary key and
  fails.
\<close>

fun archiveLoop ::
  "(call \<Rightarrow> bool) \<Rightarrow> int \<Rightarrow> Connection list \<Rightarrow> Row list \<Rightarrow> ArchiveRow list
     \<Rightarrow> error + (Row list \<times> ArchiveRow list)" where
  "archiveLoop fails now [] tx archiveTx = Inr (tx, archiveTx)"
| "archiveLoop fails now (conn # rest) tx archiveTx =
     (if fails (ExecArchive (ID conn)) then Inl ArchiveError
      else if fails (ExecDelete (ID conn)) then Inl DeleteError
      else archiveLoop fails now rest (deleteById (ID conn) tx)
             (archiveTx @ [archiveArgs conn now]))"

fun insertLoop ::
  "(call \<Rightarrow> bool) \<Rightarrow> (nat \<Rightarrow> string) \<Rightarrow> nat \<Rightarrow> (string \<times> Connection) list \<Rightarrow> Row list
     \<Rightarrow> error + Row list" where
  "insertLoop fails uuid n [] tx = Inr tx"
| "insertLoop fails uuid n ((key, conn) # rest) tx =
     (let newID = uuid n
      in if fails (ExecInsert newID) \<or> newID \<in> id_col ` set tx then Inl InsertError
         else insertLoop fails uuid (Suc n) rest (tx @ [insertArgs newID conn]))"

text \<open>
  The function returns its error, if any, and leaves both stores as the two transactions
  left them. The deferred function rolls both back after an error; otherwise it commits
  the primary transaction and, if that succeeded, the archive transaction. It assigns
  the result of the commit to the local \<open>err\<close>, which is not the (unnamed) result of
  the function, so a failed commit still returns \<open>nil\<close>. The map is iterated in the
  order \<open>rangeOrder\<close>; \<open>now\<close> is the clock at line 175.
\<close>

definition mergeAndArchiveConnections ::
  "(call \<Rightarrow> bool) \<Rightarrow> (int \<Rightarrow> string) \<Rightarrow> (cache \<Rightarrow> cache) \<Rightarrow> (nat \<Rightarrow> string) \<Rightarrow> int
     \<Rightarrow> Row list \<Rightarrow> ArchiveRow list \<Rightarrow> int \<Rightarrow> int \<Rightarrow> int
     \<Rightarrow> error option \<times> Row list \<times> ArchiveRow list" where
  "mergeAndArchiveConnections fails Format rangeOrder uuid now db archiveDB startDate endDate interval =
     (if fails Query then (Some QueryError, db, archiveDB)
      else
        let connectionsToMerge = map scanRow (selectRange startDate endDate db)
        in if connectionsToMerge = [] then (None, db, archiveDB)
           else
             let mergedConnections = fold (mergeOne Format interval) connectionsToMerge []
             in if fails Begin then (Some BeginError, db, archiveDB)
                else if fails ArchiveBegin then (Some ArchiveBeginError, db, archiveDB)
                else if fails PrepareArchive then (Some PrepareError, db, archiveDB)
                else if fails PrepareDelete then (Some PrepareError, db, archiveDB)
                else case archiveLoop fails now connectionsToMerge db archiveDB of
                       Inl err \<Rightarrow> (Some err, db, archiveDB)
                     | Inr (tx, archiveTx) \<Rightarrow>
                         if fails PrepareInsert then (Some PrepareError, db, archiveDB)
                         else (case insertLoop fails uuid 0 (rangeOrder mergedConnections) tx of
                                 Inl err \<Rightarrow> (Some err, db, archiveDB)
                               | Inr tx' \<Rightarrow>
                                   if fails Commit then (None, db, archiveDB)
                                   else if fails ArchiveCommit then (None, tx', archiveDB)
                                   else (None, tx', archiveTx)))"

section \<open>Formatting a time slot\<close>

text \<open>
  \<open>time.Format\<close> with the layout \<open>2006-01-02 15:04:05\<close>, for a process whose zone
  is UTC and for years 0 to 9999: the civil date of a day number, then the digits. It
  stands for the parameter \<open>Format\<close> wherever the model is run on sample data.
\<close>

definition digit :: "int \<Rightarrow> char" where
  "digit n = char_of (48 + n)"

definition pad2 :: "int \<Rightarrow> string" where
  "pad2 n = [digit (n div 10 mod 10), digit (n mod 10)]"

definition pad4 :: "int \<Rightarrow> string" where
  "pad4 n = pad2 (n div 100) @ pad2 n"

definition civil :: "int \<Rightarrow> int \<times> int \<times> int" where
  "civil days =
     (let z = days + 719468;
          era = z div 146097;
          doe = z mod 146097;
          yoe = (doe - doe div 1460 + doe div 36524 - doe div 146096) div 365;
          doy = doe - (365 * yoe + yoe div 4 - yoe div 100);
          mp = (5 * doy + 2) div 153;
          d = doy - (153 * mp + 2) div 5 + 1;
          m = (if mp < 10 then mp + 3 else mp - 9);
          y = yoe + era * 400 + (if m \<le> 2 then 1 else 0)
      in (y, m, d))"

definition FormatUTC :: "int \<Rightarrow> string" where
  "FormatUTC t =
     (case civil (t div 86400) of
        (y, m, d) \<Rightarrow>
          pad4 y @ ''-'' @ pad2 m @ ''-'' @ pad2 d @ '' '' @
          pad2 (t mod 86400 div 3600) @ '':'' @ pad2 (t mod 3600 div 60) @ '':'' @ pad2 (t mod 60))"


section \<open>Host replacement (\<open>replaceHostHandler\<close>)\<close>

text \<open>
  \<^verbatim>\<open>src/backend/handlers.go\<close>, lines 589 to 636. The rows are selected by SQLite's
  \<open>LIKE\<close>, whose matching is part of what the handler does: in the pattern,
  \<open>%\<close> matches any sequence of characters and \<open>_\<close> any one character; any
  other character matches itself or, for an ASCII letter, its other case. Strings are
  UTF-8 (everything \<open>encoding/json\<close> decodes is): a character is one byte, or a lead
  byte from 0xC0 with its continuation bytes. SQLite reads both the pattern and the
  matched text as C strings, that is, up to their first NUL byte, though a stored text
  keeps the bytes after it.
\<close>

definition cstring :: "string \<Rightarrow> string" where
  "cstring s = takeWhile (\<lambda>c. c \<noteq> CHR 0x00) s"

definition toLower :: "char \<Rightarrow> char" where
  "toLower c =
     (if 65 \<le> (of_char c :: nat) \<and> (of_char c :: nat) \<le> 90 then char_of (of_char c + 32 :: nat)
      else c)"

definition skipChar :: "string \<Rightarrow> string" where
  "skipChar s =
     (case s of
        [] \<Rightarrow> []
      | c # cs \<Rightarrow>
          if 192 \<le> (of_char c :: nat)
          then dropWhile (\<lambda>b. 128 \<le> (of_char b :: nat) \<and> (of_char b :: nat) < 192) cs
          else cs)"

function like :: "string \<Rightarrow> string \<Rightarrow> bool" where
  "like [] s = (s = [])"
| "like (p # ps) [] = (p = CHR ''%'' \<and> like ps [])"
| "like (p # ps) (c # cs) =
     (if p = CHR ''%'' then like ps (c # cs) \<or> like (p # ps) cs
      else if p = CHR ''_'' then like ps (skipChar (c # cs))
      else toLower p = toLower c \<and> like ps cs)"
  by pat_completeness auto
termination
  by (relation "measure (\<lambda>(p, s). length p + length s)")
     (auto simp: skipChar_def less_Suc_eq_le intro!: le_SucI length_dropWhile_le)

text \<open>
  The statement of \<open>replaceHostHandler\<close> (line 614):
  \<^verbatim>\<open>UPDATE connections SET host = ? WHERE host LIKE ? OR host = ?\<close>, with the
  arguments \<open>domainSuffix\<close>, \<open>"%." + domainSuffix\<close> and \<open>domainSuffix\<close>; the
  comparison with \<open>=\<close> is bytewise and on the whole text.
\<close>

definition matchesSuffix :: "string \<Rightarrow> Row \<Rightarrow> bool" where
  "matchesSuffix domainSuffix r \<longleftrightarrow>
     like (cstring (''%.'' @ domainSuffix)) (cstring (host r)) \<or> host r = domainSuffix"

definition updateHost :: "string \<Rightarrow> Row list \<Rightarrow> Row list" where
  "updateHost domainSuffix db =
     map (\<lambda>r. if matchesSuffix domainSuffix r then r\<lparr>host := domainSuffix\<rparr> else r) db"

text \<open>
  The handler: the decoded request body (\<open>None\<close> when it is not valid JSON), the
  rejection of an empty suffix before the store is touched, the update, and the reply
  with the number of rows the update affected.
\<close>

datatype reply = BadRequest | InternalServerError | Replaced nat

definition replaceHostHandler ::
  "(call \<Rightarrow> bool) \<Rightarrow> string option \<Rightarrow> Row list \<Rightarrow> reply \<times> Row list" where
  "replaceHostHandler fails body db =
     (case body of
        None \<Rightarrow> (BadRequest, db)
      | Some domainSuffix \<Rightarrow>
          if domainSuffix = [] then (BadRequest, db)
          else if fails ExecUpdate then (InternalServerError, db)
          else (Replaced (length (filter (matchesSuffix domainSuffix) db)),
                updateHost domainSuffix db))"

section \<open>Auxiliary notions for the statements\<close>

definition fixedCols :: "Row \<Rightarrow> string \<times> string \<times> string \<times> int \<times> string option" where
  "fixedCols r = (id_col r, sourceIP r, host r, start r, chain_col r)"

definition totals :: "string \<Rightarrow> Row list \<Rightarrow> (64 word \<times> 64 word) list" where
  "totals i db = map (\<lambda>r. (upload r, download r)) (filter (\<lambda>r. id_col r = i) db)"

definition noFaults :: "call \<Rightarrow> bool" where
  "noFaults c = False"


definition obs :: "string \<Rightarrow> string \<Rightarrow> 64 word \<Rightarrow> 64 word \<Rightarrow> Connection" where
  "obs i h u d =
     \<lparr>ID = i, Metadata = \<lparr>SourceIP = ''192.168.2.95'', Host = h, RemoteDestination = ''1.2.3.4:443''\<rparr>,
      Upload = u, Download = d, Start = 1700000000, Chains = [''DIRECT'', ''proxy'']\<rparr>"

definition inOrder :: "cache \<Rightarrow> cache" where
  "inOrder m = m"

definition storedRow ::
  "string \<Rightarrow> string \<Rightarrow> string \<Rightarrow> 64 word \<Rightarrow> 64 word \<Rightarrow> int \<Rightarrow> string \<Rightarrow> Row" where
  "storedRow i src h u d t c =
     \<lparr>id_col = i, sourceIP = src, host = h, upload = u, download = d, start = t,
      chain_col = Some c\<rparr>"

text \<open>
  The group of a row as the specification names it: its host and the floor of its start
  time at the bucket width; and the rows of a list that fall into a given group.
\<close>

definition bucket :: "int \<Rightarrow> Row \<Rightarrow> string \<times> int" where
  "bucket interval r = (host r, Truncate (start r) (minutes interval))"

definition members :: "int \<Rightarrow> string \<times> int \<Rightarrow> Row list \<Rightarrow> Row list" where
  "members interval b rows = filter (\<lambda>r. bucket interval r = b) rows"

text \<open>
  The code groups by the string \<open>host-timeSlot\<close>: the key of a stored row, and the
  rows of a list that have a given key. The key separates the groups of the rows at hand
  when rows with one key have one host and one floor.
\<close>

definition keyOf :: "(int \<Rightarrow> string) \<Rightarrow> int \<Rightarrow> Row \<Rightarrow> string" where
  "keyOf Format interval r = groupKey Format interval (scanRow r)"

definition keyMembers :: "(int \<Rightarrow> string) \<Rightarrow> int \<Rightarrow> string \<Rightarrow> Row list \<Rightarrow> Row list" where
  "keyMembers Format interval k rows = filter (\<lambda>r. keyOf Format interval r = k) rows"

definition keysFaithful :: "(int \<Rightarrow> string) \<Rightarrow> int \<Rightarrow> Row list \<Rightarrow> bool" where
  "keysFaithful Format interval rows \<longleftrightarrow>
     (\<forall>r\<in>set rows. \<forall>r'\<in>set rows.
        groupKey Format interval (scanRow r) = groupKey Format interval (scanRow r')
          \<longrightarrow> bucket interval r = bucket interval r')"

definition summed :: "Connection list \<Rightarrow> Connection option" where
  "summed g =
     (case g of
        [] \<Rightarrow> None
      | c0 # _ \<Rightarrow>
          Some (c0\<lparr>Upload := sum_list (map Upload g), Download := sum_list (map Download g)\<rparr>))"

definition newIDs :: "nat \<Rightarrow> string" where
  "newIDs n = ''merged-'' @ replicate n (CHR ''+'')"



text \<open>
  A sample store: the two records of the specification's merge scenario (\<open>x\<close> and
  \<open>y\<close>, same host, two minutes apart), a record of another host and a record outside
  the merged range.
\<close>

definition sampleStore :: "Row list" where
  "sampleStore =
     [storedRow ''x'' ''10.0.0.1'' ''a.com'' 10 20 1700000000 ''DIRECT'',
      storedRow ''y'' ''10.0.0.2'' ''a.com'' 5 5 1700000120 ''proxy'',
      storedRow ''w'' ''10.0.0.3'' ''b.com'' 7 8 1700000300 ''DIRECT'',
      storedRow ''v'' ''10.0.0.4'' ''a.com'' 1 1 1800000000 ''DIRECT'']"

text \<open>
  What merging the sample store over a range that covers \<open>x\<close>, \<open>y\<close> and
  \<open>w\<close>, with ten-minute buckets, leaves in the primary store and in the archive.
\<close>

definition sampleMerged :: "Row list" where
  "sampleMerged =
     [storedRow ''v'' ''10.0.0.4'' ''a.com'' 1 1 1800000000 ''DIRECT'',
      storedRow ''merged-'' ''10.0.0.1'' ''a.com'' 15 25 1700000000 ''DIRECT'',
      storedRow ''merged-+'' ''10.0.0.3'' ''b.com'' 7 8 1700000300 ''DIRECT'']"

definition sampleArchive :: "ArchiveRow list" where
  "sampleArchive =
     [(storedRow ''x'' ''10.0.0.1'' ''a.com'' 10 20 1700000000 ''DIRECT'', 1700009999),
      (storedRow ''y'' ''10.0.0.2'' ''a.com'' 5 5 1700000120 ''proxy'', 1700009999),
      (storedRow ''w'' ''10.0.0.3'' ''b.com'' 7 8 1700000300 ''DIRECT'', 1700009999)]"

text \<open>The invariant of the primary store: no row has an empty host.\<close>

definition hostsNonEmpty :: "Row list \<Rightarrow> bool" where
  "hostsNonEmpty db \<longleftrightarrow> list_all (\<lambda>r. host r \<noteq> []) db"




section \<open>Properties of the normaliser\<close>

lemma HasSuffix_iff: "HasSuffix s suffix \<longleftrightarrow> (\<exists>pre. s = pre @ suffix)"
proof
  assume "HasSuffix s suffix"
  then have "s = take (length s - length suffix) s @ suffix"
    by (metis HasSuffix_def append_take_drop_id)
  then show "\<exists>pre. s = pre @ suffix" ..
next
  assume "\<exists>pre. s = pre @ suffix"
  then show "HasSuffix s suffix"
    by (auto simp: HasSuffix_def)
qed

lemma HasSuffix_refl: "HasSuffix s s"
  by (simp add: HasSuffix_def)

lemma HasSuffix_trans: "HasSuffix a b \<Longrightarrow> HasSuffix b c \<Longrightarrow> HasSuffix a c"
  by (auto simp: HasSuffix_iff)

lemma HasSuffix_Nil: "HasSuffix [] s \<longleftrightarrow> s = []"
  by (auto simp: HasSuffix_def)

lemma applyWhitelist_find:
  "applyWhitelist wl h = (case find (HasSuffix h) wl of Some suffix \<Rightarrow> suffix | None \<Rightarrow> h)"
  by (induction wl) auto

lemma applyWhitelist_suffix: "HasSuffix h (applyWhitelist wl h)"
  by (induction wl) (auto simp: HasSuffix_refl)

lemma applyWhitelist_idem: "applyWhitelist wl (applyWhitelist wl h) = applyWhitelist wl h"
proof (induction wl)
  case Nil
  show ?case by simp
next
  case (Cons s rest)
  show ?case
  proof (cases "HasSuffix h s")
    case True
    then show ?thesis by (simp add: HasSuffix_refl)
  next
    case False
    have "\<not> HasSuffix (applyWhitelist rest h) s"
      using False HasSuffix_trans [OF applyWhitelist_suffix] by blast
    with False Cons.IH show ?thesis by simp
  qed
qed

lemma applyWhitelist_nonempty:
  "[] \<notin> set wl \<Longrightarrow> h \<noteq> [] \<Longrightarrow> applyWhitelist wl h \<noteq> []"
  by (induction wl) auto

lemma applyWhitelist_empty: "[] \<notin> set wl \<Longrightarrow> applyWhitelist wl [] = []"
  by (induction wl) (auto simp: HasSuffix_Nil)

lemma Host_normalizeConn:
  "Host (Metadata (normalizeConn wl conn)) = applyWhitelist wl (filledHost conn)"
  by (simp add: normalizeConn_def fillHost_def filledHost_def Let_def)

lemma normalizeConn_eq:
  "normalizeConn wl conn =
     conn\<lparr>Metadata := (Metadata conn)\<lparr>Host := applyWhitelist wl (filledHost conn)\<rparr>\<rparr>"
  by (simp add: normalizeConn_def fillHost_def filledHost_def Let_def)

lemma normalizeConn_idem:
  assumes "[] \<notin> set wl"
  shows "normalizeConn wl (normalizeConn wl conn) = normalizeConn wl conn"
proof -
  let ?h = "applyWhitelist wl (filledHost conn)"
  let ?c = "conn\<lparr>Metadata := (Metadata conn)\<lparr>Host := ?h\<rparr>\<rparr>"
  have "applyWhitelist wl (filledHost ?c) = ?h"
  proof (cases "?h = []")
    case True
    then have "filledHost conn = []"
      using applyWhitelist_nonempty [OF assms] by blast
    then have "RemoteDestination (Metadata conn) = []"
      by (simp add: filledHost_def split: if_splits)
    then have "filledHost ?c = []"
      using True by (simp add: filledHost_def)
    then show ?thesis
      using True applyWhitelist_empty [OF assms] by simp
  next
    case False
    then have "filledHost ?c = ?h"
      by (simp add: filledHost_def)
    then show ?thesis
      by (simp add: applyWhitelist_idem)
  qed
  then show ?thesis
    by (simp add: normalizeConn_eq)
qed

text \<open>
  C5 (normalisation definition). The host of a normalised record is the first suffix of
  the allow-list, in its order, that the fallback-filled host ends with, and the filled
  host itself when no suffix matches; no other field changes; a decoded snapshot is
  normalised record by record; and the allow-list \<open>[googlevideo.com]\<close> collapses
  \<open>v22.lscache6.googlevideo.com\<close> to \<open>googlevideo.com\<close>.
\<close>

theorem C5_normalization_definition:
  "Host (Metadata (normalizeConn allowList conn)) =
     (case firstMatch allowList (filledHost conn) of
        Some suffix \<Rightarrow> suffix
      | None \<Rightarrow> filledHost conn)
   \<and> normalizeConn allowList conn =
       conn\<lparr>Metadata := (Metadata conn)\<lparr>Host := Host (Metadata (normalizeConn allowList conn))\<rparr>\<rparr>
   \<and> GetClashConnections (Decoded snapshot) allowList =
       Inr (map (normalizeConn allowList) snapshot)
   \<and> Host (Metadata (normalizeConn [''googlevideo.com'']
        (conn\<lparr>Metadata := (Metadata conn)\<lparr>Host := ''v22.lscache6.googlevideo.com''\<rparr>\<rparr>))) =
       ''googlevideo.com''"
proof -
  have "firstMatch allowList (filledHost conn) = find (HasSuffix (filledHost conn)) allowList"
    unfolding firstMatch_def HasSuffix_iff ..
  then have "Host (Metadata (normalizeConn allowList conn)) =
     (case firstMatch allowList (filledHost conn) of
        Some suffix \<Rightarrow> suffix
      | None \<Rightarrow> filledHost conn)"
    by (simp add: Host_normalizeConn applyWhitelist_find)
  moreover have "normalizeConn allowList conn =
       conn\<lparr>Metadata := (Metadata conn)\<lparr>Host := Host (Metadata (normalizeConn allowList conn))\<rparr>\<rparr>"
    by (simp add: normalizeConn_eq)
  moreover have "Host (Metadata (normalizeConn [''googlevideo.com'']
        (conn\<lparr>Metadata := (Metadata conn)\<lparr>Host := ''v22.lscache6.googlevideo.com''\<rparr>\<rparr>))) =
       ''googlevideo.com''"
    by (simp add: Host_normalizeConn filledHost_def HasSuffix_def)
  ultimately show ?thesis by simp
qed

text \<open>
  C6 (normalisation idempotence), as stated: normalising twice equals normalising once,
  for every allow-list. It fails when the allow-list holds the empty suffix (as
  \<open>HOST_SUFFIX_WHITELIST="x,"\<close> gives after the split in config.go): every host ends
  with the empty string, so the first pass can empty a host that the second pass then
  refills from the fallback field.
\<close>

theorem C6_idempotence_counterexample:
  "normalizeConn [''x'', '''']
     (normalizeConn [''x'', '''']
        \<lparr>ID = ''a'',
         Metadata = \<lparr>SourceIP = ''10.0.0.1'', Host = ''abc'', RemoteDestination = ''zx''\<rparr>,
         Upload = 1, Download = 2, Start = 0, Chains = []\<rparr>)
   \<noteq> normalizeConn [''x'', '''']
        \<lparr>ID = ''a'',
         Metadata = \<lparr>SourceIP = ''10.0.0.1'', Host = ''abc'', RemoteDestination = ''zx''\<rparr>,
         Upload = 1, Download = 2, Start = 0, Chains = []\<rparr>"
  by (simp add: normalizeConn_def fillHost_def HasSuffix_def)

text \<open>
  C6, amended: for every allow-list without the empty suffix, normalising an already
  normalised snapshot changes nothing.
\<close>

theorem C6_idempotence_amended:
  assumes "[] \<notin> set allowList"
  shows "map (normalizeConn allowList) (map (normalizeConn allowList) snapshot) =
         map (normalizeConn allowList) snapshot"
  using assms by (simp add: normalizeConn_idem)

theorem C6_idempotence_amended_witness:
  "[] \<notin> set [''googlevideo.com''] \<and>
   map (normalizeConn [''googlevideo.com''])
     (map (normalizeConn [''googlevideo.com''])
        [\<lparr>ID = ''a'',
          Metadata = \<lparr>SourceIP = ''10.0.0.1'', Host = ''v22.lscache6.googlevideo.com'',
                      RemoteDestination = ''1.2.3.4:443''\<rparr>,
          Upload = 100, Download = 200, Start = 0, Chains = []\<rparr>]) =
   [\<lparr>ID = ''a'',
     Metadata = \<lparr>SourceIP = ''10.0.0.1'', Host = ''googlevideo.com'',
                 RemoteDestination = ''1.2.3.4:443''\<rparr>,
     Upload = 100, Download = 200, Start = 0, Chains = []\<rparr>]"
proof -
  have h: "[] \<notin> set [''googlevideo.com'']" by simp
  have v: "map (normalizeConn [''googlevideo.com''])
        [\<lparr>ID = ''a'',
          Metadata = \<lparr>SourceIP = ''10.0.0.1'', Host = ''v22.lscache6.googlevideo.com'',
                      RemoteDestination = ''1.2.3.4:443''\<rparr>,
          Upload = 100, Download = 200, Start = 0, Chains = []\<rparr>] =
     [\<lparr>ID = ''a'',
       Metadata = \<lparr>SourceIP = ''10.0.0.1'', Host = ''googlevideo.com'',
                   RemoteDestination = ''1.2.3.4:443''\<rparr>,
       Upload = 100, Download = 200, Start = 0, Chains = []\<rparr>]"
    by (simp add: normalizeConn_def fillHost_def HasSuffix_def)
  show ?thesis
    by (rule conjI [OF h trans [OF C6_idempotence_amended [OF h] v]])
qed

section \<open>Properties of the batched upsert and of the flusher\<close>

subsection \<open>The upsert statement\<close>

lemma upsert_absent: "id_col e \<notin> id_col ` set tx \<Longrightarrow> upsert e tx = tx @ [e]"
  by (simp add: upsert_def)

lemma upsert_present:
  "id_col e \<in> id_col ` set tx \<Longrightarrow>
   upsert e tx = map (\<lambda>r. if id_col r = id_col e
                    then r\<lparr>upload := upload e, download := download e\<rparr> else r) tx"
  by (simp add: upsert_def)

lemma ids_upsert: "map id_col (upsert e tx) =
  (if id_col e \<in> id_col ` set tx then map id_col tx else map id_col tx @ [id_col e])"
proof (cases "id_col e \<in> id_col ` set tx")
  case True
  have "map id_col (map (\<lambda>r. if id_col r = id_col e
          then r\<lparr>upload := upload e, download := download e\<rparr> else r) tx) = map id_col tx"
    by (induction tx) auto
  with True show ?thesis by (simp only: upsert_present if_True)
next
  case False
  then show ?thesis by (simp add: upsert_absent)
qed

lemma distinct_upsert: "distinct (map id_col tx) \<Longrightarrow> distinct (map id_col (upsert e tx))"
  by (simp add: ids_upsert)

lemma filter_upsert_other:
  assumes "id_col e \<noteq> i"
  shows "filter (\<lambda>r. id_col r = i) (upsert e tx) = filter (\<lambda>r. id_col r = i) tx"
proof (cases "id_col e \<in> id_col ` set tx")
  case True
  have "filter (\<lambda>r. id_col r = i) (map (\<lambda>r. if id_col r = id_col e
          then r\<lparr>upload := upload e, download := download e\<rparr> else r) tx) =
        filter (\<lambda>r. id_col r = i) tx"
    using assms by (induction tx) auto
  with True show ?thesis by (simp only: upsert_present)
next
  case False
  with assms show ?thesis by (simp add: upsert_absent)
qed

lemma totals_upsert_same:
  "set (totals (id_col e) (upsert e tx)) = {(upload e, download e)}"
proof -
  have sub: "set (totals (id_col e) (upsert e tx)) \<subseteq> {(upload e, download e)}"
    by (auto simp: totals_def upsert_def image_iff)
  have "id_col e \<in> set (map id_col (upsert e tx))"
    by (simp add: ids_upsert)
  then obtain r where "r \<in> set (upsert e tx)" "id_col r = id_col e"
    by auto
  then have "(upload r, download r) \<in> set (totals (id_col e) (upsert e tx))"
    by (auto simp: totals_def)
  with sub show ?thesis by auto
qed

lemma fixedCols_upsert: "\<exists>new. map fixedCols (upsert e tx) = map fixedCols tx @ new"
proof (cases "id_col e \<in> id_col ` set tx")
  case True
  have "map fixedCols (map (\<lambda>r. if id_col r = id_col e
          then r\<lparr>upload := upload e, download := download e\<rparr> else r) tx) = map fixedCols tx"
    by (induction tx) (auto simp: fixedCols_def)
  with True show ?thesis by (simp only: upsert_present) simp
next
  case False
  then show ?thesis by (simp add: upsert_absent)
qed

lemma hosts_upsert: "host ` set (upsert e tx) \<subseteq> insert (host e) (host ` set tx)"
  by (auto simp: upsert_def)

subsection \<open>The loop of BulkUpsertConnections\<close>

lemma upsertArgs_simps [simp]:
  "id_col (upsertArgs c) = ID c"
  "host (upsertArgs c) = Host (Metadata c)"
  "upload (upsertArgs c) = Upload c"
  "download (upsertArgs c) = Download c"
  by (simp_all add: upsertArgs_def)

lemma upsertLoop_skip:
  "upsertLoop fails conns tx = upsertLoop fails (filter (\<lambda>c. Host (Metadata c) \<noteq> []) conns) tx"
  by (induction conns arbitrary: tx) auto

lemma upsertLoop_ids:
  "upsertLoop fails conns tx = Inr tx' \<Longrightarrow>
   set (map id_col tx') = set (map id_col tx) \<union> ID ` {c \<in> set conns. Host (Metadata c) \<noteq> []}"
proof (induction conns arbitrary: tx)
  case Nil
  then show ?case by simp
next
  case (Cons c rest)
  show ?case
  proof (cases "Host (Metadata c) = []")
    case True
    with Cons.prems have "upsertLoop fails rest tx = Inr tx'" by simp
    from Cons.IH [OF this] True show ?thesis by auto
  next
    case False
    with Cons.prems have "upsertLoop fails rest (upsert (upsertArgs c) tx) = Inr tx'"
      by (simp split: if_splits)
    from Cons.IH [OF this] False show ?thesis
      by (auto simp: ids_upsert split: if_splits)
  qed
qed

lemma upsertLoop_distinct:
  "upsertLoop fails conns tx = Inr tx' \<Longrightarrow> distinct (map id_col tx) \<Longrightarrow>
   distinct (map id_col tx')"
  by (induction conns arbitrary: tx) (auto simp: distinct_upsert split: if_splits)

lemma upsertLoop_other:
  "upsertLoop fails conns tx = Inr tx' \<Longrightarrow>
   i \<notin> ID ` {c \<in> set conns. Host (Metadata c) \<noteq> []} \<Longrightarrow>
   filter (\<lambda>r. id_col r = i) tx' = filter (\<lambda>r. id_col r = i) tx"
proof (induction conns arbitrary: tx)
  case Nil
  then show ?case by simp
next
  case (Cons c rest)
  show ?case
  proof (cases "Host (Metadata c) = []")
    case True
    with Cons.prems have "upsertLoop fails rest tx = Inr tx'" by simp
    from Cons.IH [OF this] Cons.prems(2) show ?thesis by auto
  next
    case False
    with Cons.prems have run: "upsertLoop fails rest (upsert (upsertArgs c) tx) = Inr tx'"
      by (simp split: if_splits)
    from False Cons.prems(2) have ne: "id_col (upsertArgs c) \<noteq> i" by auto
    from Cons.prems(2) have "i \<notin> ID ` {c \<in> set rest. Host (Metadata c) \<noteq> []}" by auto
    from Cons.IH [OF run this] show ?thesis
      by (simp add: filter_upsert_other [OF ne])
  qed
qed

lemma upsertLoop_totals:
  "upsertLoop fails conns tx = Inr tx' \<Longrightarrow> distinct (map ID conns) \<Longrightarrow>
   c \<in> set conns \<Longrightarrow> Host (Metadata c) \<noteq> [] \<Longrightarrow>
   set (totals (ID c) tx') = {(Upload c, Download c)}"
proof (induction conns arbitrary: tx)
  case Nil
  then show ?case by simp
next
  case (Cons c0 rest)
  show ?case
  proof (cases "c = c0")
    case True
    with Cons.prems have run: "upsertLoop fails rest (upsert (upsertArgs c) tx) = Inr tx'"
      by (simp split: if_splits)
    from True Cons.prems(2) have "ID c \<notin> ID ` {c \<in> set rest. Host (Metadata c) \<noteq> []}"
      by auto
    from upsertLoop_other [OF run this]
    have "totals (ID c) tx' = totals (ID c) (upsert (upsertArgs c) tx)"
      by (simp add: totals_def)
    then show ?thesis
      using totals_upsert_same [of "upsertArgs c" tx] by simp
  next
    case False
    with Cons.prems have in_rest: "c \<in> set rest" and d: "distinct (map ID rest)" by auto
    from Cons.prems(1) obtain tx1 where "upsertLoop fails rest tx1 = Inr tx'"
      by (auto split: if_splits)
    from Cons.IH [OF this d in_rest Cons.prems(4)] show ?thesis .
  qed
qed

lemma upsertLoop_fixed:
  "upsertLoop fails conns tx = Inr tx' \<Longrightarrow> \<exists>new. map fixedCols tx' = map fixedCols tx @ new"
proof (induction conns arbitrary: tx)
  case Nil
  then show ?case by simp
next
  case (Cons c rest)
  show ?case
  proof (cases "Host (Metadata c) = []")
    case True
    with Cons.prems have "upsertLoop fails rest tx = Inr tx'" by simp
    from Cons.IH [OF this] show ?thesis .
  next
    case False
    with Cons.prems have "upsertLoop fails rest (upsert (upsertArgs c) tx) = Inr tx'"
      by (simp split: if_splits)
    from Cons.IH [OF this] obtain new2
      where a: "map fixedCols tx' = map fixedCols (upsert (upsertArgs c) tx) @ new2" ..
    obtain new1 where "map fixedCols (upsert (upsertArgs c) tx) = map fixedCols tx @ new1"
      using fixedCols_upsert by blast
    with a have "map fixedCols tx' = map fixedCols tx @ (new1 @ new2)" by simp
    then show ?thesis ..
  qed
qed

lemma upsertLoop_new:
  "upsertLoop fails conns tx = Inr tx' \<Longrightarrow> distinct (map ID conns) \<Longrightarrow>
   c \<in> set conns \<Longrightarrow> Host (Metadata c) \<noteq> [] \<Longrightarrow> ID c \<notin> id_col ` set tx \<Longrightarrow>
   upsertArgs c \<in> set tx'"
proof (induction conns arbitrary: tx)
  case Nil
  then show ?case by simp
next
  case (Cons c0 rest)
  show ?case
  proof (cases "c = c0")
    case True
    with Cons.prems have run: "upsertLoop fails rest (upsert (upsertArgs c) tx) = Inr tx'"
      by (simp split: if_splits)
    from True Cons.prems(2) have "ID c \<notin> ID ` {c \<in> set rest. Host (Metadata c) \<noteq> []}"
      by auto
    from upsertLoop_other [OF run this]
    have "filter (\<lambda>r. id_col r = ID c) tx' =
          filter (\<lambda>r. id_col r = ID c) (upsert (upsertArgs c) tx)" .
    moreover have "upsertArgs c \<in> set (filter (\<lambda>r. id_col r = ID c) (upsert (upsertArgs c) tx))"
      using Cons.prems(5) by (simp add: upsert_absent)
    ultimately have "upsertArgs c \<in> set (filter (\<lambda>r. id_col r = ID c) tx')" by simp
    then show ?thesis by simp
  next
    case False
    with Cons.prems have in_rest: "c \<in> set rest" and d: "distinct (map ID rest)"
      by auto
    from Cons.prems(2) in_rest have ne: "ID c \<noteq> ID c0"
      by (auto simp: image_iff)
    show ?thesis
    proof (cases "Host (Metadata c0) = []")
      case True
      with Cons.prems have "upsertLoop fails rest tx = Inr tx'" by simp
      from Cons.IH [OF this d in_rest Cons.prems(4) Cons.prems(5)] show ?thesis .
    next
      case False
      with Cons.prems have run: "upsertLoop fails rest (upsert (upsertArgs c0) tx) = Inr tx'"
        by (simp split: if_splits)
      have "set (map id_col (upsert (upsertArgs c0) tx)) \<subseteq> insert (ID c0) (id_col ` set tx)"
        by (auto simp: ids_upsert split: if_splits)
      with ne Cons.prems(5) have "ID c \<notin> id_col ` set (upsert (upsertArgs c0) tx)"
        by auto
      from Cons.IH [OF run d in_rest Cons.prems(4) this] show ?thesis .
    qed
  qed
qed

lemma upsertLoop_hosts:
  "upsertLoop fails conns tx = Inr tx' \<Longrightarrow> [] \<notin> host ` set tx \<Longrightarrow> [] \<notin> host ` set tx'"
proof (induction conns arbitrary: tx)
  case Nil
  then show ?case by simp
next
  case (Cons c rest)
  show ?case
  proof (cases "Host (Metadata c) = []")
    case True
    with Cons.prems have "upsertLoop fails rest tx = Inr tx'" by simp
    from Cons.IH [OF this Cons.prems(2)] show ?thesis .
  next
    case False
    with Cons.prems have run: "upsertLoop fails rest (upsert (upsertArgs c) tx) = Inr tx'"
      by (simp split: if_splits)
    have "[] \<notin> host ` set (upsert (upsertArgs c) tx)"
      using hosts_upsert [of "upsertArgs c" tx] False Cons.prems(2) by auto
    from Cons.IH [OF run this] show ?thesis .
  qed
qed

lemma upsertLoop_fails:
  "c \<in> set conns \<Longrightarrow> Host (Metadata c) \<noteq> [] \<Longrightarrow> fails (ExecUpsert (ID c)) \<Longrightarrow>
   \<exists>i. upsertLoop fails conns tx = Inl (ExecError i)"
  by (induction conns arbitrary: tx) auto

lemma upsertLoop_ok:
  "\<forall>c\<in>set conns. \<not> fails (ExecUpsert (ID c)) \<Longrightarrow> \<exists>tx'. upsertLoop fails conns tx = Inr tx'"
  by (induction conns arbitrary: tx) auto

subsection \<open>BulkUpsertConnections\<close>

lemma BulkUpsert_ok:
  "BulkUpsertConnections fails db conns = (None, db') \<Longrightarrow> upsertLoop fails conns db = Inr db'"
  by (auto simp: BulkUpsertConnections_def split: if_splits sum.splits)

lemma BulkUpsert_err:
  "BulkUpsertConnections fails db conns = (Some e, db') \<Longrightarrow> db' = db"
  by (auto simp: BulkUpsertConnections_def split: if_splits sum.splits)

lemma BulkUpsert_exec_fails:
  assumes "c \<in> set conns" "Host (Metadata c) \<noteq> []" "fails (ExecUpsert (ID c))"
  shows "\<exists>e. BulkUpsertConnections fails db conns = (Some e, db)"
proof -
  obtain i where "upsertLoop fails conns db = Inl (ExecError i)"
    using upsertLoop_fails [where fails = fails and c = c, OF assms] by blast
  then show ?thesis by (simp add: BulkUpsertConnections_def)
qed

lemma distinct_ids_filter:
  "distinct (map id_col db) \<Longrightarrow> length (filter (\<lambda>r. id_col r = i) db) \<le> 1"
  by (induction db) (auto simp: filter_empty_conv image_iff)

lemma totals_single:
  assumes "distinct (map id_col db)" "set (totals i db) = {v}"
  shows "totals i db = [v]"
proof -
  have "length (totals i db) \<le> 1"
    using distinct_ids_filter [OF assms(1)] by (simp add: totals_def)
  with assms(2) show ?thesis
    by (cases "totals i db") auto
qed

subsection \<open>The live cache\<close>

lemma visitsAll_set: "visitsAll rangeOrder \<Longrightarrow> set (rangeOrder m) = set m"
  unfolding visitsAll_def by (metis set_mset_mset)

lemma visitsAll_Nil: "visitsAll rangeOrder \<Longrightarrow> rangeOrder m = [] \<longleftrightarrow> m = []"
  unfolding visitsAll_def by (metis mset_zero_iff)

lemma visitsAll_length: "visitsAll rangeOrder \<Longrightarrow> length (rangeOrder m) = length m"
  unfolding visitsAll_def by (metis size_mset)

lemma visitsAll_keys: "visitsAll rangeOrder \<Longrightarrow> distinct (map fst m) \<Longrightarrow> distinct (map fst (rangeOrder m))"
  unfolding visitsAll_def by (metis mset_map mset_eq_imp_distinct_iff)

lemma visitsAll_inOrder: "visitsAll inOrder"
  by (simp add: visitsAll_def inOrder_def)

lemma cacheInv_batch:
  assumes "visitsAll rangeOrder" "cacheInv m"
  shows "distinct (map ID (map snd (rangeOrder m)))"
proof -
  have "\<forall>kv \<in> set (rangeOrder m). ID (snd kv) = fst kv"
    using assms by (auto simp: cacheInv_def visitsAll_set list_all_iff)
  then have "map (ID \<circ> snd) (rangeOrder m) = map fst (rangeOrder m)"
    by simp
  moreover have "distinct (map fst (rangeOrder m))"
    using assms by (simp add: cacheInv_def visitsAll_keys)
  ultimately show ?thesis
    by (simp only: map_map)
qed

lemma cacheInv_Nil: "cacheInv []"
  by (simp add: cacheInv_def)

lemma set_update_subset: "set (AList.update k v al) \<subseteq> insert (k, v) (set al)"
  by (induction al) auto

lemma cacheInv_Store:
  assumes "cacheInv m" "ID c = i"
  shows "cacheInv (Store i c m)"
proof -
  have "set (Store i c m) \<subseteq> insert (i, c) (set m)"
    unfolding Store_def by (rule set_update_subset)
  moreover have "\<forall>kv\<in>insert (i, c) (set m). ID (snd kv) = fst kv"
    using assms by (auto simp: cacheInv_def list_all_iff)
  ultimately have "\<forall>kv\<in>set (Store i c m). ID (snd kv) = fst kv"
    by blast
  moreover have "distinct (map fst (Store i c m))"
    using assms by (simp add: cacheInv_def Store_def distinct_update)
  ultimately show ?thesis
    by (auto simp: cacheInv_def list_all_iff)
qed

lemma cacheInv_storeAll: "cacheInv m \<Longrightarrow> cacheInv (storeAll connections m)"
  unfolding storeAll_def
  by (induction connections arbitrary: m) (simp_all add: cacheInv_Store)

lemma cacheInv_pollOnce: "cacheInv m \<Longrightarrow> cacheInv (fst (pollOnce resp hostSuffixWhitelist m))"
  by (simp add: pollOnce_def cacheInv_storeAll split: sum.splits)

lemma map_of_Store: "map_of (Store i c m) i = Some c"
  by (simp add: Store_def update_conv')

lemma Store_mem: "(i, c) \<in> set (Store i c m)"
  unfolding Store_def by (induction m) auto

lemma fold_Delete:
  "fold (\<lambda>(key, v). Delete key) kvs m = filter (\<lambda>(k, v). k \<notin> fst ` set kvs) m"
proof (induction kvs arbitrary: m)
  case Nil
  show ?case by simp
next
  case (Cons kv kvs)
  obtain k v where kv: "kv = (k, v)" by (cases kv)
  have "fold (\<lambda>(key, v). Delete key) (kv # kvs) m =
        fold (\<lambda>(key, v). Delete key) kvs (Delete k m)"
    by (simp add: kv)
  also have "\<dots> = filter (\<lambda>(k, v). k \<notin> fst ` set kvs) (Delete k m)"
    by (rule Cons.IH)
  also have "\<dots> = filter (\<lambda>(k, v). k \<notin> fst ` set (kv # kvs)) m"
    by (auto simp: Delete_def AList.delete_eq kv intro!: filter_cong)
  finally show ?case .
qed

lemma clearCache_empty: "visitsAll rangeOrder \<Longrightarrow> clearCache rangeOrder m = []"
  by (auto simp: clearCache_def fold_Delete visitsAll_set filter_empty_conv image_iff)

subsection \<open>One flush cycle\<close>

lemma flush_ok:
  assumes "visitsAll rangeOrder"
    and "writeCacheToDB fails rangeOrder m db = (m', db', log)"
    and "LogWriteOK \<in> set log"
  shows "upsertLoop fails (map snd (rangeOrder m)) db = Inr db' \<and> m' = []"
proof -
  obtain e db1 where b: "BulkUpsertConnections fails db (map snd (rangeOrder m)) = (e, db1)"
    by (cases "BulkUpsertConnections fails db (map snd (rangeOrder m))")
  show ?thesis
  proof (cases e)
    case None
    with assms b have "db1 = db'" "m' = []"
      by (auto simp: writeCacheToDB_def writeCacheToDB_interleaved_def storeAll_def Let_def
            clearCache_empty split: if_splits)
    with b None show ?thesis
      by (simp add: BulkUpsert_ok)
  next
    case (Some err)
    with assms b have False
      by (auto simp: writeCacheToDB_def writeCacheToDB_interleaved_def storeAll_def Let_def
            split: if_splits)
    then show ?thesis ..
  qed
qed

lemma flush_not_ok:
  assumes "writeCacheToDB fails rangeOrder m db = (m', db', log)"
    and "LogWriteOK \<notin> set log"
  shows "m' = m \<and> db' = db"
proof -
  obtain e db1 where b: "BulkUpsertConnections fails db (map snd (rangeOrder m)) = (e, db1)"
    by (cases "BulkUpsertConnections fails db (map snd (rangeOrder m))")
  show ?thesis
  proof (cases e)
    case None
    with assms b show ?thesis
      by (auto simp: writeCacheToDB_def writeCacheToDB_interleaved_def storeAll_def Let_def
            split: if_splits)
  next
    case (Some err)
    with b have "db1 = db" by (simp add: BulkUpsert_err)
    with assms b Some show ?thesis
      by (auto simp: writeCacheToDB_def writeCacheToDB_interleaved_def storeAll_def Let_def
            split: if_splits)
  qed
qed

lemma flush_distinct:
  assumes "visitsAll rangeOrder" "distinct (map id_col db)"
    and "writeCacheToDB fails rangeOrder m db = (m', db', log)"
  shows "distinct (map id_col db')"
proof (cases "LogWriteOK \<in> set log")
  case True
  from flush_ok [OF assms(1,3) True] assms(2) show ?thesis
    by (auto dest: upsertLoop_distinct)
next
  case False
  from flush_not_ok [OF assms(3) False] assms(2) show ?thesis by simp
qed

lemma flush_cacheInv:
  assumes "visitsAll rangeOrder" "cacheInv m"
    and "writeCacheToDB fails rangeOrder m db = (m', db', log)"
  shows "cacheInv m'"
proof (cases "LogWriteOK \<in> set log")
  case True
  from flush_ok [OF assms(1,3) True] show ?thesis by (simp add: cacheInv_Nil)
next
  case False
  from flush_not_ok [OF assms(3) False] assms(2) show ?thesis by simp
qed

lemma flush_persists:
  assumes "visitsAll rangeOrder" "cacheInv m" "distinct (map id_col db)"
    and "writeCacheToDB fails rangeOrder m db = (m', db', log)"
    and "LogWriteOK \<in> set log"
    and "(k, c) \<in> set m" "Host (Metadata c) \<noteq> []"
  shows "totals (ID c) db' = [(Upload c, Download c)]"
proof -
  from flush_ok [OF assms(1,4,5)]
  have run: "upsertLoop fails (map snd (rangeOrder m)) db = Inr db'" by simp
  have mem: "c \<in> set (map snd (rangeOrder m))"
    using assms(1,6) by (force simp: visitsAll_set)
  have "set (totals (ID c) db') = {(Upload c, Download c)}"
    by (rule upsertLoop_totals [OF run cacheInv_batch [OF assms(1,2)] mem assms(7)])
  moreover have "distinct (map id_col db')"
    by (rule upsertLoop_distinct [OF run assms(3)])
  ultimately show ?thesis
    by (simp add: totals_single)
qed

subsection \<open>Polls and flushes that run one after the other\<close>

lemma storeAll_latest:
  assumes "distinct (map ID connections)" and "c \<in> set connections"
  shows "map_of (storeAll connections m) (ID c) = Some c"
  using assms
proof (induction connections rule: rev_induct)
  case Nil
  then show ?case by simp
next
  case (snoc x xs)
  show ?case
  proof (cases "c = x")
    case True
    then show ?thesis
      by (simp add: storeAll_def map_of_Store)
  next
    case False
    with snoc.prems have c: "c \<in> set xs" and d: "distinct (map ID xs)" and n: "ID x \<noteq> ID c"
      by (auto simp: image_iff)
    from snoc.IH [OF d c] n show ?thesis
      by (simp add: storeAll_def Store_def update_conv')
  qed
qed

lemma pollOnce_latest:
  assumes "GetClashConnections resp hostSuffixWhitelist = Inr connections"
    and "distinct (map ID connections)" and "c \<in> set connections"
  shows "map_of (fst (pollOnce resp hostSuffixWhitelist m)) (ID c) = Some c"
  using assms by (simp add: pollOnce_def storeAll_latest)

text \<open>
  When no poll falls between the two \<open>Range\<close>s of a flush: after a first poll and a
  second poll that observed \<open>c2\<close>, the cache holds \<open>c2\<close> under its id, whatever the
  first poll had stored there; a successful flush of that cache leaves one row for the
  id, with the totals of \<open>c2\<close>; and so does the next successful flush when a flush
  ran between the two polls.
\<close>

lemma poll_then_flush:
  assumes va: "visitsAll rangeOrder" and inv: "cacheInv m" and pk: "distinct (map id_col db)"
    and get: "GetClashConnections resp2 hostSuffixWhitelist = Inr connections"
    and ids: "distinct (map ID connections)" and c2: "c2 \<in> set connections"
    and h: "Host (Metadata c2) \<noteq> []"
  shows "map_of (fst (pollOnce resp2 hostSuffixWhitelist
                   (fst (pollOnce resp1 hostSuffixWhitelist m)))) (ID c2) = Some c2
    \<and> (case writeCacheToDB fails rangeOrder
               (fst (pollOnce resp2 hostSuffixWhitelist
                  (fst (pollOnce resp1 hostSuffixWhitelist m)))) db of
         (m', db', log) \<Rightarrow>
           LogWriteOK \<in> set log \<longrightarrow> totals (ID c2) db' = [(Upload c2, Download c2)])
    \<and> (case writeCacheToDB fails1 rangeOrder (fst (pollOnce resp1 hostSuffixWhitelist m)) db of
         (m1, db1, log1) \<Rightarrow>
           (case writeCacheToDB fails2 rangeOrder
                   (fst (pollOnce resp2 hostSuffixWhitelist m1)) db1 of
              (m2, db2, log2) \<Rightarrow>
                LogWriteOK \<in> set log2 \<longrightarrow> totals (ID c2) db2 = [(Upload c2, Download c2)]))"
proof (intro conjI)
  show "map_of (fst (pollOnce resp2 hostSuffixWhitelist
                   (fst (pollOnce resp1 hostSuffixWhitelist m)))) (ID c2) = Some c2"
    by (rule pollOnce_latest [OF get ids c2])
next
  let ?m = "fst (pollOnce resp2 hostSuffixWhitelist (fst (pollOnce resp1 hostSuffixWhitelist m)))"
  have inv': "cacheInv ?m"
    by (intro cacheInv_pollOnce inv)
  have "map_of ?m (ID c2) = Some c2"
    by (rule pollOnce_latest [OF get ids c2])
  then have mem: "(ID c2, c2) \<in> set ?m"
    by (rule map_of_SomeD)
  obtain m' db' log where r: "writeCacheToDB fails rangeOrder ?m db = (m', db', log)"
    by (cases "writeCacheToDB fails rangeOrder ?m db")
  have "LogWriteOK \<in> set log \<Longrightarrow> totals (ID c2) db' = [(Upload c2, Download c2)]"
    by (rule flush_persists [OF va inv' pk r _ mem h])
  with r show "case writeCacheToDB fails rangeOrder ?m db of
      (m', db', log) \<Rightarrow> LogWriteOK \<in> set log \<longrightarrow> totals (ID c2) db' = [(Upload c2, Download c2)]"
    by simp
next
  let ?first = "fst (pollOnce resp1 hostSuffixWhitelist m)"
  obtain m1 db1 log1 where r1: "writeCacheToDB fails1 rangeOrder ?first db = (m1, db1, log1)"
    by (cases "writeCacheToDB fails1 rangeOrder ?first db")
  have inv0: "cacheInv ?first"
    by (intro cacheInv_pollOnce inv)
  have inv1: "cacheInv m1"
    by (rule flush_cacheInv [OF va inv0 r1])
  have d1: "distinct (map id_col db1)"
    by (rule flush_distinct [OF va pk r1])
  let ?m = "fst (pollOnce resp2 hostSuffixWhitelist m1)"
  have inv': "cacheInv ?m"
    by (intro cacheInv_pollOnce inv1)
  have "map_of ?m (ID c2) = Some c2"
    by (rule pollOnce_latest [OF get ids c2])
  then have mem: "(ID c2, c2) \<in> set ?m"
    by (rule map_of_SomeD)
  obtain m2 db2 log2 where r2: "writeCacheToDB fails2 rangeOrder ?m db1 = (m2, db2, log2)"
    by (cases "writeCacheToDB fails2 rangeOrder ?m db1")
  have "LogWriteOK \<in> set log2 \<Longrightarrow> totals (ID c2) db2 = [(Upload c2, Download c2)]"
    by (rule flush_persists [OF va inv' d1 r2 _ mem h])
  with r1 r2 show "case writeCacheToDB fails1 rangeOrder ?first db of
      (m1, db1, log1) \<Rightarrow>
        (case writeCacheToDB fails2 rangeOrder (fst (pollOnce resp2 hostSuffixWhitelist m1)) db1 of
           (m2, db2, log2) \<Rightarrow>
             LogWriteOK \<in> set log2 \<longrightarrow> totals (ID c2) db2 = [(Upload c2, Download c2)])"
    by simp
qed

text \<open>
  C1 (overwrite, not add), evaluated on the two goroutines. The poller observes
  connection \<open>a\<close> with the totals (1, 2) and stores it; the flusher collects the cache
  with its first \<open>Range\<close>; the poller observes \<open>a\<close> again, with the totals (3, 4),
  and stores it over the first record; the flusher persists what it collected and its
  second \<open>Range\<close> deletes the key. Both observations went through the cache and the
  flush succeeded, yet the store holds (1, 2) and the cache no longer holds the second
  observation, so no later flush writes it. That the second observation was in the
  cache shows when the same flush fails at commit: the cache then holds it. When the
  second poll runs before the flush starts, the store holds (3, 4).
\<close>

theorem C1_racing_observation_is_dropped:
  "pollOnce (Decoded [obs ''a'' ''cdn.h.com'' 1 2]) [''h.com''] [] =
     ([(''a'', obs ''a'' ''h.com'' 1 2)], LogSynced 1)
   \<and> GetClashConnections (Decoded [obs ''a'' ''cdn.h.com'' 3 4]) [''h.com''] =
       Inr [obs ''a'' ''h.com'' 3 4]
   \<and> writeCacheToDB_interleaved noFaults inOrder [obs ''a'' ''h.com'' 3 4]
       [(''a'', obs ''a'' ''h.com'' 1 2)] [] =
       ([], [upsertArgs (obs ''a'' ''h.com'' 1 2)], [LogWriting 1, LogWriteOK])
   \<and> totals ''a'' [upsertArgs (obs ''a'' ''h.com'' 1 2)] = [(1, 2)]
   \<and> writeCacheToDB_interleaved (\<lambda>c. c = Commit) inOrder [obs ''a'' ''h.com'' 3 4]
       [(''a'', obs ''a'' ''h.com'' 1 2)] [] =
       ([(''a'', obs ''a'' ''h.com'' 3 4)], [], [LogWriting 1, LogWriteFailed CommitError])
   \<and> pollOnce (Decoded [obs ''a'' ''cdn.h.com'' 3 4]) [''h.com'']
       [(''a'', obs ''a'' ''h.com'' 1 2)] =
       ([(''a'', obs ''a'' ''h.com'' 3 4)], LogSynced 1)
   \<and> writeCacheToDB noFaults inOrder [(''a'', obs ''a'' ''h.com'' 3 4)] [] =
       ([], [upsertArgs (obs ''a'' ''h.com'' 3 4)], [LogWriting 1, LogWriteOK])
   \<and> totals ''a'' [upsertArgs (obs ''a'' ''h.com'' 3 4)] = [(3, 4)]"
proof -
  have n: "normalizeConn [''h.com''] (obs ''a'' ''cdn.h.com'' u d) = obs ''a'' ''h.com'' u d"
    for u d
    by (simp add: normalizeConn_def fillHost_def obs_def HasSuffix_def)
  have p1: "pollOnce (Decoded [obs ''a'' ''cdn.h.com'' 1 2]) [''h.com''] [] =
     ([(''a'', obs ''a'' ''h.com'' 1 2)], LogSynced 1)"
    by (simp add: pollOnce_def n storeAll_def Store_def) (simp add: obs_def)
  have g2: "GetClashConnections (Decoded [obs ''a'' ''cdn.h.com'' 3 4]) [''h.com''] =
       Inr [obs ''a'' ''h.com'' 3 4]"
    by (simp add: n)
  have race: "writeCacheToDB_interleaved noFaults inOrder [obs ''a'' ''h.com'' 3 4]
       [(''a'', obs ''a'' ''h.com'' 1 2)] [] =
       ([], [upsertArgs (obs ''a'' ''h.com'' 1 2)], [LogWriting 1, LogWriteOK])"
    by (simp add: writeCacheToDB_interleaved_def inOrder_def Store_def
          storeAll_def BulkUpsertConnections_def noFaults_def obs_def upsert_def
          clearCache_def Delete_def AList.delete_eq)
  have t1: "totals ''a'' [upsertArgs (obs ''a'' ''h.com'' 1 2)] = [(1, 2)]"
    by (simp add: totals_def upsertArgs_def obs_def)
  have held: "writeCacheToDB_interleaved (\<lambda>c. c = Commit) inOrder [obs ''a'' ''h.com'' 3 4]
       [(''a'', obs ''a'' ''h.com'' 1 2)] [] =
       ([(''a'', obs ''a'' ''h.com'' 3 4)], [], [LogWriting 1, LogWriteFailed CommitError])"
    by (simp add: writeCacheToDB_interleaved_def inOrder_def Store_def
          storeAll_def BulkUpsertConnections_def obs_def upsert_def)
  have p2: "pollOnce (Decoded [obs ''a'' ''cdn.h.com'' 3 4]) [''h.com'']
       [(''a'', obs ''a'' ''h.com'' 1 2)] =
       ([(''a'', obs ''a'' ''h.com'' 3 4)], LogSynced 1)"
    by (simp add: pollOnce_def n storeAll_def Store_def) (simp add: obs_def)
  have seq: "writeCacheToDB noFaults inOrder [(''a'', obs ''a'' ''h.com'' 3 4)] [] =
       ([], [upsertArgs (obs ''a'' ''h.com'' 3 4)], [LogWriting 1, LogWriteOK])"
    by (simp add: writeCacheToDB_def writeCacheToDB_interleaved_def inOrder_def Store_def
          storeAll_def BulkUpsertConnections_def noFaults_def obs_def upsert_def
          clearCache_def Delete_def AList.delete_eq)
  have t2: "totals ''a'' [upsertArgs (obs ''a'' ''h.com'' 3 4)] = [(3, 4)]"
    by (simp add: totals_def upsertArgs_def obs_def)
  from p1 g2 race t1 held p2 seq t2 show ?thesis
    by (intro conjI)
qed

text \<open>
  C3 (failed flush), as stated: after a flush whose transaction fails on the second of
  three records, all three are absent from the cache and from the store. The cache is
  cleared only in the success branch of \<open>writeCacheToDB\<close>, so the three records are
  still cached.
\<close>

theorem C3_failed_flush_counterexample:
  "writeCacheToDB (\<lambda>c. c = ExecUpsert ''b'') inOrder
     [(''a'', obs ''a'' ''h.com'' 1 2), (''b'', obs ''b'' ''h.com'' 3 4), (''c'', obs ''c'' ''h.com'' 5 6)] []
   = ([(''a'', obs ''a'' ''h.com'' 1 2), (''b'', obs ''b'' ''h.com'' 3 4), (''c'', obs ''c'' ''h.com'' 5 6)],
      [], [LogWriting 3, LogWriteFailed (ExecError ''b'')])
   \<and> \<not> (fst ` set (fst (writeCacheToDB (\<lambda>c. c = ExecUpsert ''b'') inOrder
           [(''a'', obs ''a'' ''h.com'' 1 2), (''b'', obs ''b'' ''h.com'' 3 4),
            (''c'', obs ''c'' ''h.com'' 5 6)] [])) \<inter> {''a'', ''b'', ''c''} = {})"
proof -
  have e: "writeCacheToDB (\<lambda>c. c = ExecUpsert ''b'') inOrder
     [(''a'', obs ''a'' ''h.com'' 1 2), (''b'', obs ''b'' ''h.com'' 3 4), (''c'', obs ''c'' ''h.com'' 5 6)] []
   = ([(''a'', obs ''a'' ''h.com'' 1 2), (''b'', obs ''b'' ''h.com'' 3 4), (''c'', obs ''c'' ''h.com'' 5 6)],
      [], [LogWriting 3, LogWriteFailed (ExecError ''b'')])"
    by (simp add: writeCacheToDB_def writeCacheToDB_interleaved_def inOrder_def
          storeAll_def BulkUpsertConnections_def obs_def upsert_def)
  show ?thesis
    unfolding e by simp
qed

text \<open>
  C3, amended: when the statement fails for a cached record with a host, the flush
  persists nothing (the store is what it was), logs the error, and leaves the cache as it
  was: every collected record is still cached.
\<close>

theorem C3_failed_flush_amended:
  assumes "visitsAll rangeOrder" and "(k, c) \<in> set m" and "Host (Metadata c) \<noteq> []"
    and "fails (ExecUpsert (ID c))"
  shows "\<exists>e. writeCacheToDB fails rangeOrder m db =
           (m, db, [LogWriting (length m), LogWriteFailed e])"
proof -
  have mem: "c \<in> set (map snd (rangeOrder m))"
    using assms(1,2) by (force simp: visitsAll_set)
  then have ne: "map snd (rangeOrder m) \<noteq> []" by auto
  obtain e where "BulkUpsertConnections fails db (map snd (rangeOrder m)) = (Some e, db)"
    using BulkUpsert_exec_fails [where fails = fails and c = c, OF mem assms(3,4)] by blast
  with ne have "writeCacheToDB fails rangeOrder m db =
           (m, db, [LogWriting (length m), LogWriteFailed e])"
    by (simp add: writeCacheToDB_def writeCacheToDB_interleaved_def storeAll_def
          visitsAll_length [OF assms(1)])
  then show ?thesis ..
qed

theorem C3_failed_flush_amended_witness:
  "visitsAll inOrder
   \<and> (''b'', obs ''b'' ''h.com'' 3 4) \<in> set [(''a'', obs ''a'' ''h.com'' 1 2),
        (''b'', obs ''b'' ''h.com'' 3 4), (''c'', obs ''c'' ''h.com'' 5 6)]
   \<and> Host (Metadata (obs ''b'' ''h.com'' 3 4)) \<noteq> []
   \<and> (ExecUpsert (ID (obs ''b'' ''h.com'' 3 4)) = ExecUpsert ''b'')
   \<and> (\<exists>e. writeCacheToDB (\<lambda>c. c = ExecUpsert ''b'') inOrder
          [(''a'', obs ''a'' ''h.com'' 1 2), (''b'', obs ''b'' ''h.com'' 3 4),
           (''c'', obs ''c'' ''h.com'' 5 6)] [] =
        ([(''a'', obs ''a'' ''h.com'' 1 2), (''b'', obs ''b'' ''h.com'' 3 4),
          (''c'', obs ''c'' ''h.com'' 5 6)], [],
         [LogWriting (length [(''a'', obs ''a'' ''h.com'' 1 2), (''b'', obs ''b'' ''h.com'' 3 4),
          (''c'', obs ''c'' ''h.com'' 5 6)]), LogWriteFailed e]))"
proof -
  have h1: "visitsAll inOrder" by (rule visitsAll_inOrder)
  have h2: "(''b'', obs ''b'' ''h.com'' 3 4) \<in> set [(''a'', obs ''a'' ''h.com'' 1 2),
        (''b'', obs ''b'' ''h.com'' 3 4), (''c'', obs ''c'' ''h.com'' 5 6)]" by simp
  have h3: "Host (Metadata (obs ''b'' ''h.com'' 3 4)) \<noteq> []" by (simp add: obs_def)
  have h4: "ExecUpsert (ID (obs ''b'' ''h.com'' 3 4)) = ExecUpsert ''b''" by (simp add: obs_def)
  show ?thesis
    by (intro conjI h1 h2 h3 h4
          C3_failed_flush_amended [where fails = "\<lambda>c. c = ExecUpsert ''b''", OF h1 h2 h3 h4])
qed

text \<open>
  C7 (upsert frame). Whatever the outcome of the batched upsert, the rows that were in
  the store keep their place and their id, sourceIP, host, start and chain. When it
  succeeds on a batch with one record per id, every record with a host has the totals of
  its row overwritten, and every such record whose id was absent has its full row
  inserted.
\<close>

theorem C7_upsert_frame:
  assumes "BulkUpsertConnections fails db connections = (err, db')"
  shows "map fixedCols (take (length db) db') = map fixedCols db
    \<and> (err = None \<and> distinct (map ID connections) \<longrightarrow>
         (\<forall>c\<in>set connections. Host (Metadata c) \<noteq> [] \<longrightarrow>
            set (totals (ID c) db') = {(Upload c, Download c)}
            \<and> (ID c \<notin> id_col ` set db \<longrightarrow> upsertArgs c \<in> set db')))"
proof (cases err)
  case (Some e)
  with assms have "db' = db" by (simp add: BulkUpsert_err)
  with Some show ?thesis by simp
next
  case None
  with assms have run: "upsertLoop fails connections db = Inr db'"
    by (simp add: BulkUpsert_ok)
  obtain new where "map fixedCols db' = map fixedCols db @ new"
    using upsertLoop_fixed [OF run] ..
  then have "take (length db) (map fixedCols db') = map fixedCols db"
    by simp
  then have frame: "map fixedCols (take (length db) db') = map fixedCols db"
    by (simp add: take_map)
  have "set (totals (ID c) db') = {(Upload c, Download c)}
        \<and> (ID c \<notin> id_col ` set db \<longrightarrow> upsertArgs c \<in> set db')"
    if "distinct (map ID connections)" "c \<in> set connections" "Host (Metadata c) \<noteq> []" for c
    using upsertLoop_totals [OF run that] upsertLoop_new [OF run that] by blast
  with frame show ?thesis by blast
qed

theorem C7_upsert_frame_witness:
  "BulkUpsertConnections noFaults
      [storedRow ''a'' ''10.0.0.7'' ''first.com'' 1 2 1690000000 ''old'']
      [obs ''a'' ''h.com'' 3 4, obs ''b'' ''h.com'' 5 6] =
     (None, [storedRow ''a'' ''10.0.0.7'' ''first.com'' 3 4 1690000000 ''old'',
             storedRow ''b'' ''192.168.2.95'' ''h.com'' 5 6 1700000000 ''proxy''])
   \<and> distinct (map ID [obs ''a'' ''h.com'' 3 4, obs ''b'' ''h.com'' 5 6])
   \<and> Host (Metadata (obs ''b'' ''h.com'' 5 6)) \<noteq> []
   \<and> ID (obs ''b'' ''h.com'' 5 6) \<notin>
        id_col ` set [storedRow ''a'' ''10.0.0.7'' ''first.com'' 1 2 1690000000 ''old'']
   \<and> map fixedCols (take 1 [storedRow ''a'' ''10.0.0.7'' ''first.com'' 3 4 1690000000 ''old'',
             storedRow ''b'' ''192.168.2.95'' ''h.com'' 5 6 1700000000 ''proxy'']) =
       map fixedCols [storedRow ''a'' ''10.0.0.7'' ''first.com'' 1 2 1690000000 ''old'']
   \<and> upsertArgs (obs ''b'' ''h.com'' 5 6) \<in>
        set [storedRow ''a'' ''10.0.0.7'' ''first.com'' 3 4 1690000000 ''old'',
             storedRow ''b'' ''192.168.2.95'' ''h.com'' 5 6 1700000000 ''proxy'']"
proof -
  let ?db = "[storedRow ''a'' ''10.0.0.7'' ''first.com'' 1 2 1690000000 ''old'']"
  let ?db' = "[storedRow ''a'' ''10.0.0.7'' ''first.com'' 3 4 1690000000 ''old'',
             storedRow ''b'' ''192.168.2.95'' ''h.com'' 5 6 1700000000 ''proxy'']"
  let ?cs = "[obs ''a'' ''h.com'' 3 4, obs ''b'' ''h.com'' 5 6]"
  have e: "BulkUpsertConnections noFaults ?db ?cs = (None, ?db')"
    by (simp add: BulkUpsertConnections_def noFaults_def obs_def upsert_def upsertArgs_def
          storedRow_def lastChain_def)
  have d: "distinct (map ID ?cs)" by (simp add: obs_def)
  have h: "Host (Metadata (obs ''b'' ''h.com'' 5 6)) \<noteq> []" by (simp add: obs_def)
  have a: "ID (obs ''b'' ''h.com'' 5 6) \<notin> id_col ` set ?db"
    by (simp add: obs_def storedRow_def)
  have m: "obs ''b'' ''h.com'' 5 6 \<in> set ?cs" by simp
  note t = C7_upsert_frame [OF e]
  from t have f: "map fixedCols (take (length ?db) ?db') = map fixedCols ?db" by (rule conjunct1)
  from t d m h a have n: "upsertArgs (obs ''b'' ''h.com'' 5 6) \<in> set ?db'" by blast
  from f have f': "map fixedCols (take 1 ?db') = map fixedCols ?db" by simp
  from e d h a f' n show ?thesis by (intro conjI)
qed

text \<open>
  C4 (cache drain exclusivity), evaluated on one interleaving: the cache holds \<open>a\<close>,
  the flusher collects it, the poller then stores \<open>b\<close>, the flusher persists what it
  collected and clears the cache. Afterwards \<open>b\<close> is neither in the store nor in the
  cache.
\<close>

theorem C4_racing_put_is_lost:
  "writeCacheToDB_interleaved noFaults inOrder [obs ''b'' ''h.com'' 7 8]
     [(''a'', obs ''a'' ''h.com'' 1 2)] [] =
   ([], [upsertArgs (obs ''a'' ''h.com'' 1 2)], [LogWriting 1, LogWriteOK])
   \<and> map_of (fst (writeCacheToDB_interleaved noFaults inOrder [obs ''b'' ''h.com'' 7 8]
        [(''a'', obs ''a'' ''h.com'' 1 2)] [])) ''b'' = None
   \<and> totals ''b'' (fst (snd (writeCacheToDB_interleaved noFaults inOrder [obs ''b'' ''h.com'' 7 8]
        [(''a'', obs ''a'' ''h.com'' 1 2)] []))) = []"
proof -
  have e: "writeCacheToDB_interleaved noFaults inOrder [obs ''b'' ''h.com'' 7 8]
     [(''a'', obs ''a'' ''h.com'' 1 2)] [] =
   ([], [upsertArgs (obs ''a'' ''h.com'' 1 2)], [LogWriting 1, LogWriteOK])"
    by (simp add: writeCacheToDB_interleaved_def inOrder_def Store_def
          storeAll_def BulkUpsertConnections_def noFaults_def obs_def upsert_def
          clearCache_def Delete_def AList.delete_eq)
  show ?thesis
    unfolding e by (simp add: totals_def upsertArgs_def obs_def)
qed

section \<open>Properties of the merge\<close>

subsection \<open>Grouping and summing\<close>

lemma summed_snoc:
  "summed (g @ [c]) =
     (case summed g of
        None \<Rightarrow> Some c
      | Some e \<Rightarrow> Some (e\<lparr>Upload := Upload e + Upload c, Download := Download e + Download c\<rparr>))"
  by (cases g) (simp_all add: summed_def)

lemma mergeOne_map_of:
  "map_of (mergeOne Format interval c G) =
     (map_of G)(groupKey Format interval c \<mapsto>
        (case map_of G (groupKey Format interval c) of
           None \<Rightarrow> c
         | Some e \<Rightarrow> e\<lparr>Upload := Upload e + Upload c, Download := Download e + Download c\<rparr>))"
  by (simp add: mergeOne_def update_conv' split: option.splits)

lemma mergeOne_distinct:
  "distinct (map fst G) \<Longrightarrow> distinct (map fst (mergeOne Format interval c G))"
  by (simp add: mergeOne_def distinct_update split: option.splits)

lemma fold_mergeOne:
  "distinct (map fst (fold (mergeOne Format interval) cs []))
   \<and> (\<forall>k. map_of (fold (mergeOne Format interval) cs []) k =
          summed (filter (\<lambda>c. groupKey Format interval c = k) cs))"
proof (induction cs rule: rev_induct)
  case Nil
  show ?case by (simp add: summed_def)
next
  case (snoc c cs)
  let ?G = "fold (mergeOne Format interval) cs []"
  from snoc have d: "distinct (map fst ?G)"
    and m: "\<And>k. map_of ?G k = summed (filter (\<lambda>c. groupKey Format interval c = k) cs)"
    by simp_all
  have "map_of (mergeOne Format interval c ?G) k =
          summed (filter (\<lambda>c. groupKey Format interval c = k) (cs @ [c]))" for k
  proof (cases "groupKey Format interval c = k")
    case True
    then show ?thesis
      by (simp add: mergeOne_map_of summed_snoc m split: option.splits)
  next
    case False
    then show ?thesis
      by (simp add: mergeOne_map_of m)
  qed
  with d show ?case
    by (simp add: mergeOne_distinct)
qed

subsection \<open>The two loops of the transaction\<close>

lemma archiveLoop_ok:
  "archiveLoop fails now cs tx archiveTx = Inr (tx', archiveTx') \<Longrightarrow>
   tx' = filter (\<lambda>r. id_col r \<notin> ID ` set cs) tx
   \<and> archiveTx' = archiveTx @ map (\<lambda>c. archiveArgs c now) cs"
proof (induction cs arbitrary: tx archiveTx)
  case Nil
  then show ?case by simp
next
  case (Cons c cs)
  from Cons.prems
  have "archiveLoop fails now cs (deleteById (ID c) tx) (archiveTx @ [archiveArgs c now])
          = Inr (tx', archiveTx')"
    by (simp split: if_splits)
  from Cons.IH [OF this] show ?case
    by (auto simp: deleteById_def intro!: filter_cong)
qed

lemma insertLoop_ok:
  "insertLoop fails uuid n kvs tx = Inr tx' \<Longrightarrow>
   tx' = tx @ map (\<lambda>(j, kv). insertArgs (uuid j) (snd kv)) (enumerate n kvs)"
proof (induction kvs arbitrary: n tx)
  case Nil
  then show ?case by simp
next
  case (Cons kv kvs)
  obtain k c where kv: "kv = (k, c)" by (cases kv)
  from Cons.prems
  have "insertLoop fails uuid (Suc n) kvs (tx @ [insertArgs (uuid n) c]) = Inr tx'"
    by (simp add: kv Let_def split: if_splits)
  from Cons.IH [OF this] show ?case
    by (simp add: kv)
qed


subsection \<open>What a committed merge leaves in the primary store\<close>

lemma scanRow_simps [simp]:
  "ID (scanRow r) = id_col r"
  "Host (Metadata (scanRow r)) = host r"
  "SourceIP (Metadata (scanRow r)) = sourceIP r"
  "Upload (scanRow r) = upload r"
  "Download (scanRow r) = download r"
  "Start (scanRow r) = start r"
  by (simp_all add: scanRow_def)

lemma insertArgs_simps [simp]:
  "id_col (insertArgs i c) = i"
  "host (insertArgs i c) = Host (Metadata c)"
  "sourceIP (insertArgs i c) = SourceIP (Metadata c)"
  "upload (insertArgs i c) = Upload c"
  "download (insertArgs i c) = Download c"
  "start (insertArgs i c) = Start c"
  by (simp_all add: insertArgs_def)

lemma merge_shape:
  assumes "mergeAndArchiveConnections fails Format rangeOrder uuid now db archiveDB
             startDate endDate interval = (None, db', archive')"
    and "\<not> fails Commit" and "visitsAll rangeOrder"
  shows "db' = filter (\<lambda>r. id_col r \<notin> id_col ` set (selectRange startDate endDate db)) db
            @ map (\<lambda>(j, kv). insertArgs (uuid j) (snd kv))
                (enumerate 0 (rangeOrder (fold (mergeOne Format interval)
                   (map scanRow (selectRange startDate endDate db)) [])))"
proof (cases "selectRange startDate endDate db = []")
  case True
  have "rangeOrder [] = []"
    using assms(3) by (simp add: visitsAll_Nil)
  with True assms(1) show ?thesis
    by (simp add: mergeAndArchiveConnections_def split: if_splits)
next
  case False
  let ?cs = "map scanRow (selectRange startDate endDate db)"
  let ?G = "fold (mergeOne Format interval) ?cs []"
  from False assms(1,2) obtain tx archiveTx
    where a: "archiveLoop fails now ?cs db archiveDB = Inr (tx, archiveTx)"
      and i: "insertLoop fails uuid 0 (rangeOrder ?G) tx = Inr db'"
    by (auto simp: mergeAndArchiveConnections_def Let_def split: if_splits sum.splits)
  from archiveLoop_ok [OF a]
  have "tx = filter (\<lambda>r. id_col r \<notin> id_col ` set (selectRange startDate endDate db)) db"
    by (simp add: image_image)
  with insertLoop_ok [OF i] show ?thesis by simp
qed


lemma kept_rows:
  assumes "distinct (map id_col db)"
  shows "filter (\<lambda>r. id_col r \<notin> id_col ` set (selectRange startDate endDate db)) db =
         filter (\<lambda>r. \<not> (startDate \<le> start r \<and> start r \<le> endDate)) db"
proof (rule filter_cong [OF refl])
  fix r assume r: "r \<in> set db"
  from assms have inj: "inj_on id_col (set db)"
    by (simp add: distinct_map)
  show "(id_col r \<notin> id_col ` set (selectRange startDate endDate db)) =
        (\<not> (startDate \<le> start r \<and> start r \<le> endDate))"
  proof
    assume "id_col r \<notin> id_col ` set (selectRange startDate endDate db)"
    with r show "\<not> (startDate \<le> start r \<and> start r \<le> endDate)"
      by (auto simp: selectRange_def)
  next
    assume out: "\<not> (startDate \<le> start r \<and> start r \<le> endDate)"
    show "id_col r \<notin> id_col ` set (selectRange startDate endDate db)"
    proof
      assume "id_col r \<in> id_col ` set (selectRange startDate endDate db)"
      then obtain r' where "r' \<in> set db" "startDate \<le> start r' \<and> start r' \<le> endDate"
        "id_col r = id_col r'"
        by (auto simp: selectRange_def)
      with inj r have "r = r'" by (auto dest: inj_onD)
      with out \<open>startDate \<le> start r' \<and> start r' \<le> endDate\<close> show False by simp
    qed
  qed
qed

lemma key_of_bucket:
  "bucket interval r = bucket interval r' \<Longrightarrow> keyOf Format interval r = keyOf Format interval r'"
  by (simp add: bucket_def keyOf_def groupKey_def)

lemma keyOf_insertArgs:
  "keyOf Format interval (insertArgs i ((scanRow r)\<lparr>Upload := u, Download := d\<rparr>)) =
   keyOf Format interval r"
  by (simp add: keyOf_def groupKey_def)


lemma filter_head_finer:
  assumes "filter P xs = r # g" and "Q r" and "\<forall>x\<in>set xs. Q x \<longrightarrow> P x"
  shows "\<exists>g'. filter Q xs = r # g'"
proof -
  have "filter Q xs = filter (\<lambda>x. P x \<and> Q x) xs"
    using assms(3) by (auto intro: filter_cong)
  also have "\<dots> = filter Q (filter P xs)"
    by simp
  also have "\<dots> = r # filter Q g"
    using assms(1,2) by simp
  finally show ?thesis ..
qed

lemma entry_first:
  assumes mem: "(k, c) \<in> set (fold (mergeOne Format interval) (map scanRow rows) [])"
  shows "\<exists>r g. keyMembers Format interval k rows = r # g
           \<and> c = (scanRow r)\<lparr>Upload := sum_list (map upload (r # g)),
                              Download := sum_list (map download (r # g))\<rparr>"
proof -
  let ?G = "fold (mergeOne Format interval) (map scanRow rows) []"
  let ?grp = "keyMembers Format interval k rows"
  from fold_mergeOne [of Format interval "map scanRow rows"]
  have d: "distinct (map fst ?G)"
    and m: "map_of ?G k = summed (filter (\<lambda>c. groupKey Format interval c = k) (map scanRow rows))"
    by simp_all
  from d mem have "map_of ?G k = Some c" by simp
  with m have s: "summed (map scanRow ?grp) = Some c"
    by (simp add: filter_map comp_def keyMembers_def keyOf_def)
  then obtain r g where grp: "?grp = r # g"
    by (cases ?grp) (simp_all add: summed_def)
  from s grp have "c = (scanRow r)\<lparr>Upload := sum_list (map upload (r # g)),
                              Download := sum_list (map download (r # g))\<rparr>"
    by (simp add: summed_def comp_def)
  with grp show ?thesis by blast
qed

lemma keyMembers_head:
  assumes "keyMembers Format interval k rows = r # g"
  shows "r \<in> set rows \<and> keyOf Format interval r = k"
proof -
  from assms have "r \<in> set (keyMembers Format interval k rows)" by simp
  then show ?thesis by (simp add: keyMembers_def)
qed

lemma key_present:
  assumes "r \<in> set rows"
  shows "keyOf Format interval r
           \<in> fst ` set (fold (mergeOne Format interval) (map scanRow rows) [])"
proof -
  let ?G = "fold (mergeOne Format interval) (map scanRow rows) []"
  let ?k = "groupKey Format interval (scanRow r)"
  have "scanRow r \<in> set (filter (\<lambda>c. groupKey Format interval c = ?k) (map scanRow rows))"
    using assms by simp
  then have "summed (filter (\<lambda>c. groupKey Format interval c = ?k) (map scanRow rows)) \<noteq> None"
    by (cases "filter (\<lambda>c. groupKey Format interval c = ?k) (map scanRow rows)")
       (simp_all add: summed_def)
  with fold_mergeOne [of Format interval "map scanRow rows"]
  have "map_of ?G ?k \<noteq> None" by simp
  then show ?thesis
    by (simp add: map_of_eq_None_iff keyOf_def)
qed




lemma map_enumerate_snd:
  "map (\<lambda>(j, kv). h kv) (enumerate n xs) = map h xs"
  by (induction xs arbitrary: n) simp_all

lemma merged_rows:
  assumes res: "mergeAndArchiveConnections fails Format rangeOrder uuid now db archiveDB
             startDate endDate interval = (None, db', archive')"
    and commit: "\<not> fails Commit" and va: "visitsAll rangeOrder"
    and pk: "distinct (map id_col db)"
  shows "\<exists>merged.
      db' = filter (\<lambda>r. \<not> (startDate \<le> start r \<and> start r \<le> endDate)) db @ merged
    \<and> set (map id_col merged) \<subseteq> range uuid
    \<and> distinct (map (keyOf Format interval) merged)
    \<and> set (map (keyOf Format interval) merged) =
        keyOf Format interval ` set (selectRange startDate endDate db)
    \<and> (\<forall>m\<in>set merged. \<exists>r g.
          keyMembers Format interval (keyOf Format interval m)
            (selectRange startDate endDate db) = r # g
        \<and> host m = host r \<and> start m = start r \<and> sourceIP m = sourceIP r
        \<and> upload m = sum_list (map upload (r # g))
        \<and> download m = sum_list (map download (r # g)))"
proof -
  let ?rows = "selectRange startDate endDate db"
  let ?G = "fold (mergeOne Format interval) (map scanRow ?rows) []"
  let ?ins = "\<lambda>(j, kv). insertArgs (uuid j) (snd kv)"
  let ?merged = "map ?ins (enumerate 0 (rangeOrder ?G))"
  have setG: "set (rangeOrder ?G) = set ?G"
    by (rule visitsAll_set [OF va])
  have dG: "distinct (map fst ?G)"
    using fold_mergeOne [of Format interval "map scanRow ?rows"] by simp
  have entry: "\<exists>r g. keyMembers Format interval (fst kv) ?rows = r # g
           \<and> snd kv = (scanRow r)\<lparr>Upload := sum_list (map upload (r # g)),
                              Download := sum_list (map download (r # g))\<rparr>"
    if "kv \<in> set ?G" for kv
    using entry_first [of "fst kv" "snd kv" Format interval ?rows] that by simp
  have key: "keyOf Format interval (insertArgs i (snd kv)) = fst kv" if "kv \<in> set ?G" for kv i
  proof -
    from entry [OF that] obtain r g where g: "keyMembers Format interval (fst kv) ?rows = r # g"
      and c: "snd kv = (scanRow r)\<lparr>Upload := sum_list (map upload (r # g)),
                              Download := sum_list (map download (r # g))\<rparr>"
      by blast
    from keyMembers_head [OF g] have "keyOf Format interval r = fst kv" by simp
    with c show ?thesis by (simp add: keyOf_insertArgs)
  qed
  have shape: "db' = filter (\<lambda>r. \<not> (startDate \<le> start r \<and> start r \<le> endDate)) db @ ?merged"
    using merge_shape [OF res commit va] kept_rows [OF pk] by simp
  have ids: "set (map id_col ?merged) \<subseteq> range uuid"
    by auto
  have keys: "map (keyOf Format interval) ?merged = map fst (rangeOrder ?G)"
  proof -
    have "map (keyOf Format interval) ?merged =
        map (\<lambda>(j, kv). keyOf Format interval (insertArgs (uuid j) (snd kv)))
          (enumerate 0 (rangeOrder ?G))"
      by (simp add: case_prod_unfold)
    also have "\<dots> = map (\<lambda>(j, kv). fst kv) (enumerate 0 (rangeOrder ?G))"
    proof (rule map_cong [OF refl])
      fix x assume x: "x \<in> set (enumerate 0 (rangeOrder ?G))"
      obtain j kv where jk: "x = (j, kv)" by (cases x)
      with x have "(j, kv) \<in> set (enumerate 0 (rangeOrder ?G))" by simp
      then have "kv \<in> set (rangeOrder ?G)"
        by (auto simp: in_set_enumerate_eq)
      with setG jk have "snd x \<in> set ?G"
        by simp
      from key [OF this] show "(case x of (j, kv) \<Rightarrow>
            keyOf Format interval (insertArgs (uuid j) (snd kv))) =
          (case x of (j, kv) \<Rightarrow> fst kv)"
        by (simp add: case_prod_unfold)
    qed
    also have "\<dots> = map fst (rangeOrder ?G)"
      by (rule map_enumerate_snd)
    finally show ?thesis .
  qed
  have dist: "distinct (map (keyOf Format interval) ?merged)"
    unfolding keys by (rule visitsAll_keys [OF va dG])
  have cover: "set (map (keyOf Format interval) ?merged) = keyOf Format interval ` set ?rows"
  proof
    show "set (map (keyOf Format interval) ?merged) \<subseteq> keyOf Format interval ` set ?rows"
    proof
      fix k assume "k \<in> set (map (keyOf Format interval) ?merged)"
      then obtain kv where kv: "kv \<in> set ?G" and k: "k = fst kv"
        unfolding keys using setG by auto
      from entry [OF kv] obtain r g where "keyMembers Format interval (fst kv) ?rows = r # g"
        by blast
      from keyMembers_head [OF this] k have "r \<in> set ?rows" "k = keyOf Format interval r"
        by simp_all
      then show "k \<in> keyOf Format interval ` set ?rows"
        by (rule rev_image_eqI)
    qed
  next
    show "keyOf Format interval ` set ?rows \<subseteq> set (map (keyOf Format interval) ?merged)"
    proof
      fix k assume "k \<in> keyOf Format interval ` set ?rows"
      then obtain r where "r \<in> set ?rows" and k: "k = keyOf Format interval r" by auto
      from key_present [OF this(1), of Format interval] k have "k \<in> fst ` set ?G"
        by simp
      with setG have "k \<in> set (map fst (rangeOrder ?G))"
        by simp
      then show "k \<in> set (map (keyOf Format interval) ?merged)"
        by (simp only: keys)
    qed
  qed
  have each: "\<exists>r g. keyMembers Format interval (keyOf Format interval m) ?rows = r # g
        \<and> host m = host r \<and> start m = start r \<and> sourceIP m = sourceIP r
        \<and> upload m = sum_list (map upload (r # g))
        \<and> download m = sum_list (map download (r # g))"
    if "m \<in> set ?merged" for m
  proof -
    from that obtain j kv where jk: "(j, kv) \<in> set (enumerate 0 (rangeOrder ?G))"
      and m: "m = insertArgs (uuid j) (snd kv)"
      by auto
    from jk have "kv \<in> set (rangeOrder ?G)"
      by (auto simp: in_set_enumerate_eq)
    with setG have kv: "kv \<in> set ?G" by simp
    from entry [OF kv] obtain r g where mb: "keyMembers Format interval (fst kv) ?rows = r # g"
      and c: "snd kv = (scanRow r)\<lparr>Upload := sum_list (map upload (r # g)),
                              Download := sum_list (map download (r # g))\<rparr>"
      by blast
    from key [OF kv] m have "keyOf Format interval m = fst kv" by simp
    with mb m c show ?thesis
      by auto
  qed
  from shape ids dist cover each show ?thesis
    by blast
qed


lemma keysFaithful_fixed_width:
  assumes "inj_on Format ((\<lambda>r. Truncate (start r) (minutes interval)) ` set rows)"
    and "\<forall>r\<in>set rows. \<forall>r'\<in>set rows.
           length (Format (Truncate (start r) (minutes interval))) =
           length (Format (Truncate (start r') (minutes interval)))"
  shows "keysFaithful Format interval rows"
  unfolding keysFaithful_def
proof (intro ballI impI)
  fix r r' assume r: "r \<in> set rows" and r': "r' \<in> set rows"
    and eq: "groupKey Format interval (scanRow r) = groupKey Format interval (scanRow r')"
  let ?t = "Truncate (start r) (minutes interval)" and ?t' = "Truncate (start r') (minutes interval)"
  from eq have "(host r @ ''-'') @ Format ?t = (host r' @ ''-'') @ Format ?t'"
    by (simp add: groupKey_def)
  moreover from assms(2) r r' have "length (Format ?t) = length (Format ?t')" by blast
  ultimately have "host r @ ''-'' = host r' @ ''-'' \<and> Format ?t = Format ?t'"
    by (metis append_eq_append_conv)
  with assms(1) r r' have "host r = host r'" and "?t = ?t'"
    by (auto dest: inj_onD)
  then show "bucket interval r = bucket interval r'"
    by (simp add: bucket_def)
qed



subsection \<open>The sample merge\<close>

lemma sample_merge:
  "mergeAndArchiveConnections noFaults FormatUTC inOrder newIDs 1700009999 sampleStore []
     1699999000 1700001000 10 = (None, sampleMerged, sampleArchive)"
  by code_simp

lemma sample_commit: "\<not> noFaults Commit"
  by (simp add: noFaults_def)

lemma sample_pk: "distinct (map id_col sampleStore)"
  by (simp add: sampleStore_def storedRow_def)


lemma minutes_10: "minutes 10 = 600000000000"
  by (simp add: minutes_def)



lemma sample_bucket:
  "bucket 10 (storedRow i s h u d 1700000000 c) = (h, 1699999800)"
  "bucket 10 (storedRow i s h u d 1700000120 c) = (h, 1699999800)"
  "bucket 10 (storedRow i s h u d 1700000300 c) = (h, 1699999800)"
  by (simp_all add: storedRow_def bucket_def Truncate_def minutes_10)



text \<open>
  C9 (bucket timestamp of the merged record), as stated: the merged record's start is
  the floor of its bucket. The merged record is the first selected row of its group with
  the counters summed, so it keeps that row's start: in the sample, the group of
  \<open>a.com\<close> has the floor 1699999800 (22:10:00) and its merged record the start
  1700000000 (22:13:20).
\<close>

theorem C9_merged_start_counterexample:
  "fst (snd (mergeAndArchiveConnections noFaults FormatUTC inOrder newIDs 1700009999 sampleStore []
     1699999000 1700001000 10)) = sampleMerged
   \<and> map (\<lambda>m. (id_col m, host m, start m, snd (bucket 10 m))) (tl sampleMerged) =
       [(''merged-'', ''a.com'', 1700000000, 1699999800),
        (''merged-+'', ''b.com'', 1700000300, 1699999800)]
   \<and> \<not> (\<forall>m\<in>set (tl sampleMerged). start m = snd (bucket 10 m))"
proof -
  have t: "tl sampleMerged =
      [storedRow ''merged-'' ''10.0.0.1'' ''a.com'' 15 25 1700000000 ''DIRECT'',
       storedRow ''merged-+'' ''10.0.0.3'' ''b.com'' 7 8 1700000300 ''DIRECT'']"
    by (simp add: sampleMerged_def)
  have b: "map (\<lambda>m. (id_col m, host m, start m, snd (bucket 10 m))) (tl sampleMerged) =
       [(''merged-'', ''a.com'', 1700000000, 1699999800),
        (''merged-+'', ''b.com'', 1700000300, 1699999800)]"
    unfolding t by (simp add: sample_bucket) (simp add: storedRow_def)
  have n: "\<not> (\<forall>m\<in>set (tl sampleMerged). start m = snd (bucket 10 m))"
    unfolding t by (simp add: sample_bucket) (simp add: storedRow_def)
  show ?thesis
    unfolding sample_merge using b n by simp
qed

text \<open>
  C9, amended: the merged record written for a group carries the host and the start of
  the first selected row of its (host, bucket) pair, in the order the query returned the
  rows; its start therefore lies in that bucket, and is the bucket's floor only when
  that row started on a bucket boundary.
\<close>

theorem C9_merged_start_amended:
  assumes "mergeAndArchiveConnections fails Format rangeOrder uuid now db archiveDB
             startDate endDate interval = (None, db', archive')"
    and "\<not> fails Commit" and "visitsAll rangeOrder"
    and "distinct (map id_col db)"
  shows "\<exists>merged.
      db' = filter (\<lambda>r. \<not> (startDate \<le> start r \<and> start r \<le> endDate)) db @ merged
    \<and> (\<forall>m\<in>set merged. \<exists>r g.
          members interval (bucket interval m) (selectRange startDate endDate db) = r # g
        \<and> host m = host r \<and> start m = start r
        \<and> Truncate (start m) (minutes interval) = snd (bucket interval r))"
proof -
  let ?rows = "selectRange startDate endDate db"
  from merged_rows [OF assms] obtain merged where
    shape: "db' = filter (\<lambda>r. \<not> (startDate \<le> start r \<and> start r \<le> endDate)) db @ merged"
    and each: "\<forall>m\<in>set merged. \<exists>r g.
          keyMembers Format interval (keyOf Format interval m) ?rows = r # g
        \<and> host m = host r \<and> start m = start r \<and> sourceIP m = sourceIP r
        \<and> upload m = sum_list (map upload (r # g))
        \<and> download m = sum_list (map download (r # g))"
    by blast
  have "\<exists>r g. members interval (bucket interval m) ?rows = r # g
        \<and> host m = host r \<and> start m = start r
        \<and> Truncate (start m) (minutes interval) = snd (bucket interval r)"
    if "m \<in> set merged" for m
  proof -
    from each that obtain r g where
      g: "filter (\<lambda>x. keyOf Format interval x = keyOf Format interval m) ?rows = r # g"
      and h: "host m = host r" and s: "start m = start r"
      unfolding keyMembers_def by blast
    from h s have q: "bucket interval r = bucket interval m"
      by (simp add: bucket_def)
    have finer: "\<forall>x\<in>set ?rows. bucket interval x = bucket interval m \<longrightarrow>
        keyOf Format interval x = keyOf Format interval m"
      using key_of_bucket by blast
    from filter_head_finer [OF g q finer] obtain g' where
      "members interval (bucket interval m) ?rows = r # g'"
      unfolding members_def by blast
    with h s show ?thesis
      by (auto simp: bucket_def)
  qed
  with shape show ?thesis by blast
qed

theorem C9_merged_start_amended_witness:
  "mergeAndArchiveConnections noFaults FormatUTC inOrder newIDs 1700009999 sampleStore []
     1699999000 1700001000 10 = (None, sampleMerged, sampleArchive)
   \<and> \<not> noFaults Commit \<and> visitsAll inOrder \<and> distinct (map id_col sampleStore)
   \<and> (\<exists>merged.
      sampleMerged =
        filter (\<lambda>r. \<not> (1699999000 \<le> start r \<and> start r \<le> 1700001000)) sampleStore @ merged
    \<and> (\<forall>m\<in>set merged. \<exists>r g.
          members 10 (bucket 10 m) (selectRange 1699999000 1700001000 sampleStore) = r # g
        \<and> host m = host r \<and> start m = start r
        \<and> Truncate (start m) (minutes 10) = snd (bucket 10 r)))"
  by (intro conjI sample_merge sample_commit visitsAll_inOrder sample_pk
        C9_merged_start_amended [OF sample_merge sample_commit visitsAll_inOrder sample_pk])

section \<open>Properties of the host replacement\<close>

subsection \<open>The pattern\<close>







subsection \<open>The handler\<close>




section \<open>The invariant of the primary store\<close>

lemma hostsNonEmpty_iff: "hostsNonEmpty db \<longleftrightarrow> [] \<notin> host ` set db"
  by (auto simp: hostsNonEmpty_def list_all_iff image_iff)

lemma BulkUpsert_hosts:
  assumes "hostsNonEmpty db"
  shows "hostsNonEmpty (snd (BulkUpsertConnections fails db connections))"
proof (cases "BulkUpsertConnections fails db connections")
  case (Pair err db')
  show ?thesis
  proof (cases err)
    case None
    with Pair have "upsertLoop fails connections db = Inr db'"
      by (simp add: BulkUpsert_ok)
    from upsertLoop_hosts [OF this] assms Pair show ?thesis
      by (simp add: hostsNonEmpty_iff)
  next
    case (Some e)
    with Pair have "db' = db" by (simp add: BulkUpsert_err)
    with assms Pair show ?thesis by simp
  qed
qed

lemma BulkUpsert_skip:
  "BulkUpsertConnections fails db connections =
   BulkUpsertConnections fails db (filter (\<lambda>c. Host (Metadata c) \<noteq> []) connections)"
  using upsertLoop_skip [of fails connections db]
  by (simp add: BulkUpsertConnections_def)

lemma flush_hosts:
  assumes "hostsNonEmpty db"
  shows "hostsNonEmpty (fst (snd (writeCacheToDB fails rangeOrder m db)))"
proof -
  have "fst (snd (writeCacheToDB fails rangeOrder m db)) = db
      \<or> fst (snd (writeCacheToDB fails rangeOrder m db)) =
           snd (BulkUpsertConnections fails db (map snd (rangeOrder m)))"
    by (auto simp: writeCacheToDB_def writeCacheToDB_interleaved_def Let_def
          split: option.splits prod.splits)
  with assms BulkUpsert_hosts [OF assms] show ?thesis by metis
qed

lemma fold_mergeOne_hosts:
  "kv \<in> set (fold (mergeOne Format interval) cs []) \<Longrightarrow>
   Host (Metadata (snd kv)) \<in> (\<lambda>c. Host (Metadata c)) ` set cs"
proof (induction cs arbitrary: kv rule: rev_induct)
  case Nil
  then show ?case by simp
next
  case (snoc c cs)
  let ?G = "fold (mergeOne Format interval) cs []"
  let ?k = "groupKey Format interval c"
  from snoc.prems have p: "kv \<in> set (mergeOne Format interval c ?G)"
    by simp
  show ?case
  proof (cases "map_of ?G ?k")
    case None
    then have "mergeOne Format interval c ?G = AList.update ?k c ?G"
      by (simp add: mergeOne_def)
    with p have "kv \<in> set (AList.update ?k c ?G)"
      by simp
    with set_update_subset have "kv = (?k, c) \<or> kv \<in> set ?G" by fastforce
    then show ?thesis
    proof
      assume "kv = (?k, c)"
      then show ?thesis by simp
    next
      assume "kv \<in> set ?G"
      from snoc.IH [OF this] show ?thesis by auto
    qed
  next
    case (Some e)
    let ?e = "e\<lparr>Upload := Upload e + Upload c, Download := Download e + Download c\<rparr>"
    from Some have "mergeOne Format interval c ?G = AList.update ?k ?e ?G"
      by (simp add: mergeOne_def)
    with p have "kv \<in> set (AList.update ?k ?e ?G)"
      by simp
    with set_update_subset have "kv = (?k, ?e) \<or> kv \<in> set ?G" by fastforce
    then show ?thesis
    proof
      assume kv: "kv = (?k, ?e)"
      from Some have "(?k, e) \<in> set ?G" by (rule map_of_SomeD)
      from snoc.IH [OF this] kv show ?thesis by auto
    next
      assume "kv \<in> set ?G"
      from snoc.IH [OF this] show ?thesis by auto
    qed
  qed
qed

lemma merge_hosts:
  assumes "hostsNonEmpty db" and va: "visitsAll rangeOrder"
  shows "hostsNonEmpty (fst (snd (mergeAndArchiveConnections fails Format rangeOrder uuid now
           db archiveDB startDate endDate interval)))"
proof (cases "mergeAndArchiveConnections fails Format rangeOrder uuid now
           db archiveDB startDate endDate interval")
  case (fields err db' archive')
  show ?thesis
  proof (cases "db' = db")
    case True
    with assms fields show ?thesis by simp
  next
    case False
    let ?rows = "selectRange startDate endDate db"
    let ?cs = "map scanRow ?rows"
    let ?G = "fold (mergeOne Format interval) ?cs []"
    from False fields obtain tx archiveTx
      where a: "archiveLoop fails now ?cs db archiveDB = Inr (tx, archiveTx)"
        and i: "insertLoop fails uuid 0 (rangeOrder ?G) tx = Inr db'"
      by (auto simp: mergeAndArchiveConnections_def Let_def split: if_splits sum.splits)
    from archiveLoop_ok [OF a] have tx: "set tx \<subseteq> set db" by auto
    have new: "host r \<noteq> []"
      if "r \<in> set (map (\<lambda>(j, kv). insertArgs (uuid j) (snd kv)) (enumerate 0 (rangeOrder ?G)))"
      for r
    proof -
      from that obtain j kv where "(j, kv) \<in> set (enumerate 0 (rangeOrder ?G))"
        and r: "r = insertArgs (uuid j) (snd kv)"
        by auto
      then have "kv \<in> set (rangeOrder ?G)"
        by (auto simp: in_set_enumerate_eq)
      then have "kv \<in> set ?G"
        by (simp add: visitsAll_set [OF va])
      from fold_mergeOne_hosts [OF this] have "Host (Metadata (snd kv)) \<in> host ` set ?rows"
        by (auto simp: image_iff)
      then have "Host (Metadata (snd kv)) \<in> host ` set db"
        by (auto simp: selectRange_def)
      with assms(1) r show ?thesis
        by (auto simp: hostsNonEmpty_iff)
    qed
    let ?new = "map (\<lambda>(j, kv). insertArgs (uuid j) (snd kv)) (enumerate 0 (rangeOrder ?G))"
    from insertLoop_ok [OF i] have sd: "set db' = set tx \<union> set ?new"
      by simp
    have old: "\<forall>r\<in>set db. host r \<noteq> []"
      using assms(1) by (simp add: hostsNonEmpty_def list_all_iff)
    have "\<forall>r\<in>set db'. host r \<noteq> []"
    proof
      fix r assume "r \<in> set db'"
      with sd consider "r \<in> set tx" | "r \<in> set ?new" by blast
      then show "host r \<noteq> []"
      proof cases
        case 1
        with tx old show ?thesis by blast
      next
        case 2
        then show ?thesis by (rule new)
      qed
    qed
    with fields show ?thesis
      by (simp add: hostsNonEmpty_def list_all_iff)
  qed
qed

lemma replace_hosts:
  assumes "hostsNonEmpty db"
  shows "hostsNonEmpty (snd (replaceHostHandler fails body db))"
  using assms
  by (auto simp: replaceHostHandler_def updateHost_def hostsNonEmpty_def list_all_iff
        split: option.splits)

text \<open>
  C8 (non-empty host). When no row of the primary store has an empty host, none has one
  after a batched upsert, a flush, a merge or a host replacement, whatever their outcome.
  The upsert treats a batch as it treats the batch without its empty-host records, so
  these are dropped without an error; and a successful flush leaves the cache empty, so
  they are not queued again.
\<close>

theorem C8_non_empty_host_invariant:
  assumes "hostsNonEmpty db" and "visitsAll rangeOrder"
  shows "hostsNonEmpty (snd (BulkUpsertConnections fails db connections))
    \<and> hostsNonEmpty (fst (snd (writeCacheToDB fails rangeOrder m db)))
    \<and> hostsNonEmpty (fst (snd (mergeAndArchiveConnections fails Format rangeOrder uuid now
           db archiveDB startDate endDate interval)))
    \<and> hostsNonEmpty (snd (replaceHostHandler fails body db))
    \<and> BulkUpsertConnections fails db connections =
        BulkUpsertConnections fails db (filter (\<lambda>c. Host (Metadata c) \<noteq> []) connections)
    \<and> (LogWriteOK \<in> set (snd (snd (writeCacheToDB fails rangeOrder m db))) \<longrightarrow>
         fst (writeCacheToDB fails rangeOrder m db) = [])"
proof -
  obtain m' db' log where r: "writeCacheToDB fails rangeOrder m db = (m', db', log)"
    by (cases "writeCacheToDB fails rangeOrder m db")
  have "fst (writeCacheToDB fails rangeOrder m db) = []"
    if "LogWriteOK \<in> set (snd (snd (writeCacheToDB fails rangeOrder m db)))"
  proof -
    from that r have "LogWriteOK \<in> set log" by simp
    from flush_ok [OF assms(2) r this] r show ?thesis by simp
  qed
  then show ?thesis
    using BulkUpsert_hosts [OF assms(1)] flush_hosts [OF assms(1)] merge_hosts [OF assms]
      replace_hosts [OF assms(1)] BulkUpsert_skip
    by blast
qed

theorem C8_non_empty_host_invariant_witness:
  "hostsNonEmpty sampleStore \<and> visitsAll inOrder
   \<and> BulkUpsertConnections noFaults sampleStore [obs ''e'' [] 1 2, obs ''f'' ''h.com'' 3 4] =
       (None, sampleStore @ [storedRow ''f'' ''192.168.2.95'' ''h.com'' 3 4 1700000000 ''proxy''])
   \<and> hostsNonEmpty (snd (BulkUpsertConnections noFaults sampleStore
        [obs ''e'' [] 1 2, obs ''f'' ''h.com'' 3 4]))
   \<and> hostsNonEmpty (fst (snd (writeCacheToDB noFaults inOrder
        [(''e'', obs ''e'' [] 1 2), (''f'', obs ''f'' ''h.com'' 3 4)] sampleStore)))
   \<and> hostsNonEmpty (fst (snd (mergeAndArchiveConnections noFaults FormatUTC inOrder newIDs
        1700009999 sampleStore [] 1699999000 1700001000 10)))
   \<and> hostsNonEmpty (snd (replaceHostHandler noFaults (Some ''com'') sampleStore))
   \<and> BulkUpsertConnections noFaults sampleStore [obs ''e'' [] 1 2, obs ''f'' ''h.com'' 3 4] =
       BulkUpsertConnections noFaults sampleStore
         (filter (\<lambda>c. Host (Metadata c) \<noteq> []) [obs ''e'' [] 1 2, obs ''f'' ''h.com'' 3 4])
   \<and> LogWriteOK \<in> set (snd (snd (writeCacheToDB noFaults inOrder
        [(''e'', obs ''e'' [] 1 2), (''f'', obs ''f'' ''h.com'' 3 4)] sampleStore)))
   \<and> fst (writeCacheToDB noFaults inOrder
        [(''e'', obs ''e'' [] 1 2), (''f'', obs ''f'' ''h.com'' 3 4)] sampleStore) = []"
proof -
  have h1: "hostsNonEmpty sampleStore"
    by (simp add: hostsNonEmpty_def sampleStore_def storedRow_def)
  have h2: "visitsAll inOrder" by (rule visitsAll_inOrder)
  have e: "BulkUpsertConnections noFaults sampleStore [obs ''e'' [] 1 2, obs ''f'' ''h.com'' 3 4] =
       (None, sampleStore @ [storedRow ''f'' ''192.168.2.95'' ''h.com'' 3 4 1700000000 ''proxy''])"
    by (simp add: BulkUpsertConnections_def noFaults_def obs_def upsert_def upsertArgs_def
          storedRow_def lastChain_def sampleStore_def)
  have ok: "LogWriteOK \<in> set (snd (snd (writeCacheToDB noFaults inOrder
        [(''e'', obs ''e'' [] 1 2), (''f'', obs ''f'' ''h.com'' 3 4)] sampleStore)))"
    using e by (simp add: writeCacheToDB_def writeCacheToDB_interleaved_def inOrder_def
          storeAll_def)
  note t = C8_non_empty_host_invariant [OF h1 h2, where fails = noFaults
      and connections = "[obs ''e'' [] 1 2, obs ''f'' ''h.com'' 3 4]"
      and m = "[(''e'', obs ''e'' [] 1 2), (''f'', obs ''f'' ''h.com'' 3 4)]"
      and Format = FormatUTC and uuid = newIDs and now = 1700009999 and archiveDB = "[]"
      and startDate = 1699999000 and endDate = 1700001000 and interval = 10
      and body = "Some ''com''"]
  from t ok have c: "fst (writeCacheToDB noFaults inOrder
        [(''e'', obs ''e'' [] 1 2), (''f'', obs ''f'' ''h.com'' 3 4)] sampleStore) = []"
    by blast
  from t have t1: "hostsNonEmpty (snd (BulkUpsertConnections noFaults sampleStore
        [obs ''e'' [] 1 2, obs ''f'' ''h.com'' 3 4]))"
    and t2: "hostsNonEmpty (fst (snd (writeCacheToDB noFaults inOrder
        [(''e'', obs ''e'' [] 1 2), (''f'', obs ''f'' ''h.com'' 3 4)] sampleStore)))"
    and t3: "hostsNonEmpty (fst (snd (mergeAndArchiveConnections noFaults FormatUTC inOrder newIDs
        1700009999 sampleStore [] 1699999000 1700001000 10)))"
    and t4: "hostsNonEmpty (snd (replaceHostHandler noFaults (Some ''com'') sampleStore))"
    and t5: "BulkUpsertConnections noFaults sampleStore [obs ''e'' [] 1 2, obs ''f'' ''h.com'' 3 4] =
       BulkUpsertConnections noFaults sampleStore
         (filter (\<lambda>c. Host (Metadata c) \<noteq> []) [obs ''e'' [] 1 2, obs ''f'' ''h.com'' 3 4])"
    by blast+
  from h1 h2 e t1 t2 t3 t4 t5 ok c show ?thesis
    by (intro conjI)
qed

end
